theory Spec2Isabelle
  imports Main "HOL-Library.Word"
begin

section \<open>Errors\<close>

text \<open>
  Return codes of the hardware capability API other than \<open>SUCCESS\<close>. A call that the
  Go source writes as \<open>v, ret := call()\<close> is a value of \<open>nvml_error + 'a\<close>: \<open>Inr v\<close>
  stands for \<open>ret == SUCCESS\<close>, \<open>Inl e\<close> for the return code \<open>e\<close>.
\<close>

datatype nvml_error =
    ERROR_NOT_SUPPORTED
  | ERROR_INVALID_ARGUMENT
  | ERROR_NOT_FOUND
  | ERROR_TIMEOUT
  | ERROR_UNKNOWN

text \<open>Failures of \<open>os.ReadFile\<close>.\<close>

datatype io_error = ENOENT | EACCES | EIO

text \<open>
  One constructor for each \<open>fmt.Errorf\<close> of the source, carrying what the message
  formats; one for each failure of a call that the source only passes on
  (\<open>ErrCreateFSWatcher\<close> to \<open>ErrShutdownNVML\<close>); \<open>ErrCallback\<close> for an error that a
  callback of a walk returns; and \<open>PanicSliceBounds\<close> for the run-time panic of a
  slice expression with a negative bound.
\<close>

datatype error =
    ErrNvml nvml_error
  | ErrCheckingMigDevice error
  | ErrNotMigDevice
  | ErrMigAttributes nvml_error
  | ErrParentFromMig nvml_error
  | ErrPciBusInfo nvml_error
  | ErrParsingNumaNode
  | ErrDeviceCount nvml_error
  | ErrDeviceHandle int nvml_error
  | ErrCheckingMigCapable int error
  | ErrMigMode nvml_error
  | ErrProfileInfo int nvml_error
  | ErrCallback string
  | ErrCreateFSWatcher
  | ErrLoadConfig
  | ErrInitNVML
  | ErrAddDefaultResources
  | ErrMarshalConfig
  | ErrMigStrategy
  | ErrShutdownNVML
  | ErrStoppingPreviousRun error
  | ErrStartingPlugins error
  | ErrStoppingPlugins error
  | ErrAvailableDevices string
  | ErrRequiredDevices string
  | ErrNotEnoughDevices
  | PanicSliceBounds

section \<open>Devices and device sets\<close>

text \<open>
  Modelled from the spec: the type \<open>Device\<close> of the repository's \<open>internal/rm\<close>
  package is not among the sources; the record has the attributes of section 3 of the
  specification.
\<close>

record Device =
  ID :: string
  Index :: nat
  IsPartition :: bool
  ParentID :: "string option"
  Profile :: string
  Paths :: "string list"
  NumaNode :: "int option"

text \<open>
  Modelled from the spec: the type \<open>Devices\<close> and its methods \<open>Contains\<close>,
  \<open>Subset\<close>, \<open>Difference\<close>, \<open>GetIDs\<close> and \<open>ContainsMigDevices\<close> are not among
  the sources. The specification describes an order-preserving collection keyed by id
  with subset-by-id, difference by id and id projection, whose operations never produce
  duplicate ids, and a remainder that keeps the order of \<open>available\<close>. A device set
  is the list of its devices in order.
\<close>

type_synonym Devices = "Device list"

definition Contains :: "Devices \<Rightarrow> string \<Rightarrow> bool" where
  "Contains ds i = list_ex (\<lambda>d. ID d = i) ds"

definition GetByID :: "Devices \<Rightarrow> string \<Rightarrow> Device option" where
  "GetByID ds i = find (\<lambda>d. ID d = i) ds"

text \<open>
  \<open>Subset ds ids\<close> walks \<open>ids\<close> in order and keeps the member of \<open>ds\<close> with
  that id; an id that occurs again does not add a second entry under the same key.
\<close>

fun Subset :: "Devices \<Rightarrow> string list \<Rightarrow> Devices" where
  "Subset ds [] = []"
| "Subset ds (i # ids) =
     (case GetByID ds i of
        None \<Rightarrow> Subset ds ids
      | Some d \<Rightarrow> d # filter (\<lambda>d'. ID d' \<noteq> i) (Subset ds ids))"

definition Difference :: "Devices \<Rightarrow> Devices \<Rightarrow> Devices" where
  "Difference ds ods = filter (\<lambda>d. \<not> Contains ods (ID d)) ds"

definition GetIDs :: "Devices \<Rightarrow> string list" where
  "GetIDs ds = map ID ds"

definition ContainsMigDevices :: "Devices \<Rightarrow> bool" where
  "ContainsMigDevices ds = list_ex IsPartition ds"

text \<open>
  Modelled from the spec: the type \<open>AnnotatedIDs\<close> and its method
  \<open>AnyHasAnnotations\<close> are not among the sources. The source converts the string list
  \<open>available\<close> to it, so an annotated id is a string; how the qualifier is encoded in
  the string is not given, and \<open>HasAnnotations\<close> is a parameter. A list has annotations
  if any element carries one.
\<close>

definition AnyHasAnnotations :: "(string \<Rightarrow> bool) \<Rightarrow> string list \<Rightarrow> bool" where
  "AnyHasAnnotations HasAnnotations ids = list_ex HasAnnotations ids"

section \<open>The allocation engine (allocate.go)\<close>

record resourceManager =
  devices :: Devices

text \<open>
  The external placement library \<open>gpuallocator\<close>: \<open>NewDevicesFrom\<close> resolves ids to
  the library's device objects and may fail, \<open>Allocate\<close> is the best-effort policy,
  \<open>UUID_of\<close> reads the field \<open>UUID\<close> of a device object.
\<close>

record 'dev gpuallocator =
  NewDevicesFrom :: "string list \<Rightarrow> string + 'dev list"
  Allocate :: "'dev list \<Rightarrow> 'dev list \<Rightarrow> int \<Rightarrow> 'dev list"
  UUID_of :: "'dev \<Rightarrow> string"

definition alignedAlloc ::
  "'dev gpuallocator \<Rightarrow> string list \<Rightarrow> string list \<Rightarrow> int \<Rightarrow> error + string list" where
  "alignedAlloc lib available required sz =
     (case NewDevicesFrom lib available of
        Inl e \<Rightarrow> Inl (ErrAvailableDevices e)
      | Inr availableDevices \<Rightarrow>
          (case NewDevicesFrom lib required of
             Inl e \<Rightarrow> Inl (ErrRequiredDevices e)
           | Inr requiredDevices \<Rightarrow>
               Inr (map (UUID_of lib) (Allocate lib availableDevices requiredDevices sz))))"

text \<open>
  \<open>alloc\<close>: the candidate list is \<open>required\<close> followed by the remainder. The slice
  expression \<open>devices[:size]\<close> panics when \<open>size\<close> is negative.
\<close>

definition alloc :: "resourceManager \<Rightarrow> string list \<Rightarrow> string list \<Rightarrow> int \<Rightarrow> error + string list" where
  "alloc r available required sz =
     (let remainder = GetIDs (Difference (Subset (devices r) available)
                                         (Subset (devices r) required));
          devs = required @ remainder
      in if int (length devs) < sz then Inl ErrNotEnoughDevices
         else if sz < 0 then Inl PanicSliceBounds
         else Inr (take (nat sz) devs))"

definition getPreferredAllocation ::
  "'dev gpuallocator \<Rightarrow> (string \<Rightarrow> bool) \<Rightarrow> resourceManager \<Rightarrow>
     string list \<Rightarrow> string list \<Rightarrow> int \<Rightarrow> error + string list" where
  "getPreferredAllocation lib HasAnnotations r available required sz =
     (if \<not> ContainsMigDevices (devices r) \<and> \<not> AnyHasAnnotations HasAnnotations available
      then alignedAlloc lib available required sz
      else alloc r available required sz)"

section \<open>The hardware capability API as the code sees it (nvml.go)\<close>

text \<open>
  The attributes of a partition and the description of a GPU-instance profile, with the
  integer widths of the library's structures. Both structures have a field
  \<open>MemorySizeMB\<close>; the one of the profile is \<open>ProfileMemorySizeMB\<close> here.
\<close>

record DeviceAttributes =
  GpuInstanceSliceCount :: "32 word"
  ComputeInstanceSliceCount :: "32 word"
  MemorySizeMB :: "64 word"

record GpuInstanceProfileInfo =
  SliceCount :: "32 word"
  ProfileMemorySizeMB :: "64 word"

text \<open>
  A device handle is what its queries answer. \<open>GetPciInfoBusId\<close> is the field
  \<open>BusId\<close> of \<open>GetPciInfo\<close> as a string: the conversion \<open>int8Slice.String\<close> of
  the character buffer is not among the sources, and the model takes the bus address
  as the string it yields.
\<close>

datatype nvmlDevice = NvmlDevice
  (GetUUID: "nvml_error + string")
  (IsMigDeviceHandle: "nvml_error + bool")
  (GetMigMode: "nvml_error + int \<times> int")
  (GetAttributes: "nvml_error + DeviceAttributes")
  (GetPciInfoBusId: "nvml_error + string")
  (GetDeviceHandleFromMigDeviceHandle: "nvml_error + nvmlDevice")
  (GetGpuInstanceProfileInfo: "int \<Rightarrow> nvml_error + GpuInstanceProfileInfo")

text \<open>
  The library as a whole: the device count, the handle at an index, and the constant
  \<open>GPU_INSTANCE_PROFILE_COUNT\<close>, whose value belongs to the library.
\<close>

record nvml =
  DeviceGetCount :: "nvml_error + int"
  DeviceGetHandleByIndex :: "int \<Rightarrow> nvml_error + nvmlDevice"
  GPU_INSTANCE_PROFILE_COUNT :: int

text \<open>
  \<open>nvmlLookupSymbol\<close> asks the dynamic loader; the loader is the predicate that holds
  of the symbols for which the lookup returns no error.
\<close>

type_synonym loader = "string \<Rightarrow> bool"

definition nvmlLookupSymbol :: "loader \<Rightarrow> string \<Rightarrow> bool" where
  "nvmlLookupSymbol dl symbol = dl symbol"

definition isMigDevice :: "loader \<Rightarrow> nvmlDevice \<Rightarrow> error + bool" where
  "isMigDevice dl d =
     (if \<not> nvmlLookupSymbol dl ''nvmlDeviceIsMigDeviceHandle'' then Inr False
      else case IsMigDeviceHandle d of
             Inl ret \<Rightarrow> Inl (ErrNvml ret)
           | Inr isMig \<Rightarrow> Inr isMig)"

definition isMigCapable :: "loader \<Rightarrow> nvmlDevice \<Rightarrow> error + bool" where
  "isMigCapable dl d =
     (if \<not> nvmlLookupSymbol dl ''nvmlDeviceGetMigMode'' then Inr False
      else case GetMigMode d of
             Inl ret \<Rightarrow> (if ret = ERROR_NOT_SUPPORTED then Inr False else Inl (ErrMigMode ret))
           | Inr _ \<Rightarrow> Inr True)"

subsection \<open>Formatting\<close>

text \<open>The verb \<open>%d\<close> of \<open>fmt.Sprintf\<close> on an unsigned value: its decimal digits.\<close>

fun fmt_d :: "nat \<Rightarrow> string" where
  "fmt_d n = (if n < 10 then [''0123456789'' ! n]
              else fmt_d (n div 10) @ [''0123456789'' ! (n mod 10)])"

declare fmt_d.simps [simp del]

subsection \<open>Profile names\<close>

definition getMigProfile :: "loader \<Rightarrow> nvmlDevice \<Rightarrow> error + string" where
  "getMigProfile dl d =
     (case isMigDevice dl d of
        Inl err \<Rightarrow> Inl (ErrCheckingMigDevice err)
      | Inr isMig \<Rightarrow>
          if \<not> isMig then Inl ErrNotMigDevice
          else (case GetAttributes d of
                  Inl ret \<Rightarrow> Inl (ErrMigAttributes ret)
                | Inr attr \<Rightarrow>
                    (let g = GpuInstanceSliceCount attr;
                         c = ComputeInstanceSliceCount attr;
                         gb = (MemorySizeMB attr + 1024 - 1) div 1024
                     in Inr (if g = c
                             then fmt_d (unat g) @ ''g.'' @ fmt_d (unat gb) @ ''gb''
                             else fmt_d (unat c) @ ''c.'' @ fmt_d (unat g) @ ''g.''
                                    @ fmt_d (unat gb) @ ''gb''))))"

text \<open>
  The profile string in the words of the specification, on unbounded numbers:
  \<open>memGB = ceil(memMB / 1024)\<close> in exact integer arithmetic, then
  \<open>"{g}g.{memGB}gb"\<close> if \<open>g = c\<close> and \<open>"{c}c.{g}g.{memGB}gb"\<close> otherwise.
\<close>

definition memGB_spec :: "nat \<Rightarrow> nat" where
  "memGB_spec memMB = (if memMB mod 1024 = 0 then memMB div 1024 else memMB div 1024 + 1)"

definition profile_spec :: "nat \<Rightarrow> nat \<Rightarrow> nat \<Rightarrow> string" where
  "profile_spec g c memMB =
     (if g = c then fmt_d g @ ''g.'' @ fmt_d (memGB_spec memMB) @ ''gb''
      else fmt_d c @ ''c.'' @ fmt_d g @ ''g.'' @ fmt_d (memGB_spec memMB) @ ''gb'')"

subsection \<open>Walking the devices and the profiles\<close>

text \<open>
  A callback may have effects, so it takes and returns a state of any type \<open>'s\<close>
  beside its error. A loop \<open>for i := 0; i < count; i++\<close> is a recursion over the
  list of its indices.
\<close>

fun walkGPUDevices_loop ::
  "nvml \<Rightarrow> (int \<Rightarrow> nvmlDevice \<Rightarrow> 's \<Rightarrow> error option \<times> 's) \<Rightarrow> int list \<Rightarrow> 's \<Rightarrow> error option \<times> 's" where
  "walkGPUDevices_loop nv f [] s = (None, s)"
| "walkGPUDevices_loop nv f (i # is) s =
     (case DeviceGetHandleByIndex nv i of
        Inl ret \<Rightarrow> (Some (ErrDeviceHandle i ret), s)
      | Inr device \<Rightarrow>
          (case f i device s of
             (Some err, s') \<Rightarrow> (Some err, s')
           | (None, s') \<Rightarrow> walkGPUDevices_loop nv f is s'))"

definition walkGPUDevices ::
  "nvml \<Rightarrow> (int \<Rightarrow> nvmlDevice \<Rightarrow> 's \<Rightarrow> error option \<times> 's) \<Rightarrow> 's \<Rightarrow> error option \<times> 's" where
  "walkGPUDevices nv f s =
     (case DeviceGetCount nv of
        Inl ret \<Rightarrow> (Some (ErrDeviceCount ret), s)
      | Inr count \<Rightarrow> walkGPUDevices_loop nv f [0..count - 1] s)"

text \<open>
  The inner loop of \<open>walkMigProfiles\<close> over the profile indices of one GPU. The state
  is the map \<open>visited\<close> (a missing key reads \<open>false\<close>) and the callback's state.
\<close>

fun walkMigProfiles_loop ::
  "nvmlDevice \<Rightarrow> (string \<Rightarrow> 's \<Rightarrow> error option \<times> 's) \<Rightarrow> int list \<Rightarrow>
     (string \<Rightarrow> bool) \<times> 's \<Rightarrow> error option \<times> (string \<Rightarrow> bool) \<times> 's" where
  "walkMigProfiles_loop gpu f [] (visited, s) = (None, (visited, s))"
| "walkMigProfiles_loop gpu f (i # is) (visited, s) =
     (case GetGpuInstanceProfileInfo gpu i of
        Inl ret \<Rightarrow>
          if ret = ERROR_NOT_SUPPORTED then walkMigProfiles_loop gpu f is (visited, s)
          else if ret = ERROR_INVALID_ARGUMENT then walkMigProfiles_loop gpu f is (visited, s)
          else (Some (ErrProfileInfo i ret), (visited, s))
      | Inr giProfileInfo \<Rightarrow>
          (let g = SliceCount giProfileInfo;
               gb = (ProfileMemorySizeMB giProfileInfo + 1024 - 1) div 1024;
               p = fmt_d (unat g) @ ''g.'' @ fmt_d (unat gb) @ ''gb''
           in if visited p then walkMigProfiles_loop gpu f is (visited, s)
              else (case f p s of
                      (Some err, s') \<Rightarrow> (Some err, (visited, s'))
                    | (None, s') \<Rightarrow> walkMigProfiles_loop gpu f is (visited(p := True), s'))))"

definition walkMigProfiles ::
  "loader \<Rightarrow> nvml \<Rightarrow> (string \<Rightarrow> 's \<Rightarrow> error option \<times> 's) \<Rightarrow> 's \<Rightarrow> error option \<times> 's" where
  "walkMigProfiles dl nv f s =
     (case walkGPUDevices nv
             (\<lambda>i gpu (visited, s).
                case isMigCapable dl gpu of
                  Inl err \<Rightarrow> (Some (ErrCheckingMigCapable i err), (visited, s))
                | Inr capable \<Rightarrow>
                    if \<not> capable then (None, (visited, s))
                    else walkMigProfiles_loop gpu f [0..GPU_INSTANCE_PROFILE_COUNT nv - 1] (visited, s))
             (\<lambda>_. False, s) of
        (err, (visited, s')) \<Rightarrow> (err, s'))"

text \<open>
  A callback that also records its arguments, in the order of the calls.
\<close>

definition logging ::
  "(string \<Rightarrow> 's \<Rightarrow> error option \<times> 's) \<Rightarrow> string \<Rightarrow> 's \<times> string list \<Rightarrow> error option \<times> 's \<times> string list" where
  "logging f p = (\<lambda>(s, calls). case f p s of (err, s') \<Rightarrow> (err, (s', calls @ [p])))"

subsection \<open>NUMA node of a device\<close>

text \<open>
  Text is a list of bytes. \<open>strings.ToLower\<close> and \<open>bytes.TrimSpace\<close> work on the
  bytes themselves when all of them are ASCII (below 128); on text with any other
  byte they decode UTF-8 and consult the tables of the package \<open>unicode\<close>, which
  belongs to the Go library. That part is a parameter: \<open>MapToLower s\<close> is
  \<open>strings.Map(unicode.ToLower, s)\<close> and \<open>TrimFuncIsSpace b\<close> is
  \<open>bytes.TrimFunc(b, unicode.IsSpace)\<close>.
\<close>

record unicode =
  MapToLower :: "string \<Rightarrow> string"
  TrimFuncIsSpace :: "string \<Rightarrow> string"

definition isASCII :: "char \<Rightarrow> bool" where
  "isASCII c = ((of_char c :: nat) < 128)"

text \<open>
  \<open>strings.ToLower\<close>: on ASCII text the letters \<open>A\<close> to \<open>Z\<close> are mapped to
  \<open>a\<close> to \<open>z\<close> and every other byte is kept; other text goes to the library.
\<close>

definition asciiLower :: "char \<Rightarrow> char" where
  "asciiLower c = (let n = (of_char c :: nat)
                   in if 65 \<le> n \<and> n \<le> 90
                      then ''abcdefghijklmnopqrstuvwxyz'' ! (n - 65) else c)"

definition ToLower :: "unicode \<Rightarrow> string \<Rightarrow> string" where
  "ToLower u s = (if list_all isASCII s then map asciiLower s else MapToLower u s)"

definition TrimPrefix :: "string \<Rightarrow> string \<Rightarrow> string" where
  "TrimPrefix s pre = (if take (length pre) s = pre then drop (length pre) s else s)"

text \<open>
  \<open>bytes.TrimSpace\<close>: on ASCII text the white-space bytes (tab, line feed, vertical
  tab, form feed, carriage return and space) are removed at both ends; other text goes
  to the library, which also removes white space that UTF-8 encodes in several bytes.
\<close>

definition isSpace :: "char \<Rightarrow> bool" where
  "isSpace c = ((of_char c :: nat) \<in> {9, 10, 11, 12, 13, 32})"

definition asciiTrimSpace :: "string \<Rightarrow> string" where
  "asciiTrimSpace b = rev (dropWhile isSpace (rev (dropWhile isSpace b)))"

definition TrimSpace :: "unicode \<Rightarrow> string \<Rightarrow> string" where
  "TrimSpace u b = (if list_all isASCII b then asciiTrimSpace b else TrimFuncIsSpace u b)"

text \<open>
  \<open>strconv.ParseInt(s, 10, 8)\<close>, which reads bytes: an optional sign, then one or
  more of the bytes \<open>0\<close> to \<open>9\<close>, and a value between -128 and 127. The result
  is \<open>None\<close> for every error of the library (syntax and range): the caller does not
  tell them apart.
\<close>

definition isDigit :: "char \<Rightarrow> bool" where
  "isDigit c = (48 \<le> (of_char c :: nat) \<and> (of_char c :: nat) \<le> 57)"

definition digitsValue :: "string \<Rightarrow> nat" where
  "digitsValue s = foldl (\<lambda>n c. 10 * n + ((of_char c :: nat) - 48)) 0 s"

definition ParseInt8 :: "string \<Rightarrow> int option" where
  "ParseInt8 s =
     (case s of
        [] \<Rightarrow> None
      | c # t \<Rightarrow>
          (let neg = (c = CHR ''-'');
               ds = (if c = CHR ''+'' \<or> c = CHR ''-'' then t else s)
           in if ds = [] \<or> \<not> list_all isDigit ds then None
              else (let un = digitsValue ds
                    in if \<not> neg \<and> 128 \<le> un then None
                       else if neg \<and> 128 < un then None
                       else Some (if neg then - int un else int un))))"

text \<open>The host's files as \<open>os.ReadFile\<close> sees them.\<close>

type_synonym filesystem = "string \<Rightarrow> io_error + string"

text \<open>
  The key of the lookup, line 324 of the source: the local variable \<open>busID\<close>.
\<close>

definition busID :: "unicode \<Rightarrow> string \<Rightarrow> string" where
  "busID u s = ToLower u (TrimPrefix s ''0000'')"

definition getNumaNode ::
  "unicode \<Rightarrow> loader \<Rightarrow> filesystem \<Rightarrow> nvmlDevice \<Rightarrow> error + int option" where
  "getNumaNode u dl ReadFile d =
     (case isMigDevice dl d of
        Inl err \<Rightarrow> Inl (ErrCheckingMigDevice err)
      | Inr isMig \<Rightarrow>
          (case (if isMig
                 then (case GetDeviceHandleFromMigDeviceHandle d of
                         Inl ret \<Rightarrow> Inl (ErrParentFromMig ret)
                       | Inr parent \<Rightarrow> Inr parent)
                 else Inr d) of
             Inl err \<Rightarrow> Inl err
           | Inr d' \<Rightarrow>
               (case GetPciInfoBusId d' of
                  Inl ret \<Rightarrow> Inl (ErrPciBusInfo ret)
                | Inr info \<Rightarrow>
                    (case ReadFile (''/sys/bus/pci/devices/'' @ busID u info @ ''/numa_node'') of
                       Inl err \<Rightarrow> Inr None
                     | Inr b \<Rightarrow>
                         (case ParseInt8 (TrimSpace u b) of
                            None \<Rightarrow> Inl ErrParsingNumaNode
                          | Some node \<Rightarrow> if node < 0 then Inr None else Inr (Some node))))))"

subsection \<open>Hardware events\<close>

record EventData =
  Device :: nvmlDevice
  EventType :: "64 word"
  EventData :: "64 word"
  GpuInstanceId :: "32 word"
  ComputeInstanceId :: "32 word"

text \<open>
  \<open>nvmlEvent\<close>: a Go pointer field is an option, \<open>None\<close> for \<open>nil\<close>.
\<close>

record nvmlEvent =
  UUID :: "string option"
  GpuInstanceID :: "nat option"
  ComputeInstanceID :: "nat option"
  Etype :: "64 word"
  Edata :: "64 word"

text \<open>An event set is what its method \<open>Wait\<close> answers for a timeout.\<close>

type_synonym EventSet = "32 word \<Rightarrow> nvml_error + EventData"

text \<open>
  \<open>nvmlWaitForEvent\<close>. The helper \<open>uintPtr\<close>, from a 32-bit value to a pointer to
  \<open>uint\<close>, is not among the sources: it is a parameter. The timeout is converted from
  \<open>uint\<close> to \<open>uint32\<close>.
\<close>

definition nvmlWaitForEvent ::
  "(32 word \<Rightarrow> nat option) \<Rightarrow> EventSet \<Rightarrow> 64 word \<Rightarrow> error + nvmlEvent" where
  "nvmlWaitForEvent uintPtr es timeout =
     (case es (ucast timeout) of
        Inl ret \<Rightarrow> Inl (ErrNvml ret)
      | Inr data \<Rightarrow>
          (case GetUUID (Device data) of
             Inl ret \<Rightarrow> Inl (ErrNvml ret)
           | Inr uuid \<Rightarrow>
               (case IsMigDeviceHandle (Device data) of
                  Inl ret \<Rightarrow> Inl (ErrNvml ret)
                | Inr isMig \<Rightarrow>
                    (let data' = (if \<not> isMig
                                  then data\<lparr>GpuInstanceId := 0xFFFFFFFF,
                                            ComputeInstanceId := 0xFFFFFFFF\<rparr>
                                  else data)
                     in Inr \<lparr>UUID = Some uuid,
                             GpuInstanceID = uintPtr (GpuInstanceId data'),
                             ComputeInstanceID = uintPtr (ComputeInstanceId data'),
                             Etype = EventType data',
                             Edata = EventData data'\<rparr>))))"

section \<open>The supervisor (main.go)\<close>

text \<open>
  What the \<open>select\<close> of \<open>start\<close> can receive: the value of the restart timer, a
  file-system event (its name, and whether its operation has the \<open>Create\<close> bit), a
  watcher error, or one of the four signals the process subscribes to.
\<close>

datatype signal = SIGHUP | SIGINT | SIGTERM | SIGQUIT

datatype event =
    RestartTimeout
  | WatcherEvent string bool
  | WatcherError
  | Sig signal

text \<open>
  A plugin (one per resource name) as \<open>startPlugins\<close> sees it: the number of devices
  it serves, \<open>len(p.Devices())\<close>, and whether its \<open>Start\<close> returns no error.
\<close>

record NvidiaDevicePlugin =
  resourceName :: string
  DevicesLen :: nat
  StartOk :: bool

text \<open>
  What the calls of one run of \<open>startPlugins\<close> answer, and what the calls of the
  whole run of \<open>start\<close> answer: \<open>startEnv k\<close> for the k-th run of \<open>startPlugins\<close>,
  \<open>ShutdownOk k\<close> for the k-th run of \<open>stopPlugins\<close>.
\<close>

record startPlugins_env =
  loadConfigOk :: bool
  nvmlInitOk :: bool
  FailOnInitError :: bool
  AddDefaultResourcesToConfigOk :: bool
  MarshalIndentOk :: bool
  NewMigStrategyOk :: bool
  GetPlugins :: "NvidiaDevicePlugin list"

record environment =
  newFSWatcherOk :: bool
  KubeletSocket :: string
  startEnv :: "nat \<Rightarrow> startPlugins_env"
  ShutdownOk :: "nat \<Rightarrow> bool"

text \<open>
  The observable actions of a run, in order. A plugin object is identified by a
  handle: the run of \<open>startPlugins\<close> that created it and its position in the list of
  that run (the objects are created anew by every run).
\<close>

type_synonym handle = "nat \<times> nat"

datatype action =
    Start handle NvidiaDevicePlugin bool
  | Stop handle
  | NvmlInit bool
  | NvmlShutdown bool
  | ArmTimer nat

text \<open>A call either returns or, at \<open>select {}\<close>, blocks for ever.\<close>

datatype 'a call = Returns 'a | Blocks

fun stopPlugins_loop :: "nat \<Rightarrow> nat \<Rightarrow> NvidiaDevicePlugin list \<Rightarrow> action list" where
  "stopPlugins_loop c i [] = []"
| "stopPlugins_loop c i (p # ps) = Stop (c, i) # stopPlugins_loop c (Suc i) ps"

definition stopPlugins :: "nat \<Rightarrow> NvidiaDevicePlugin list \<Rightarrow> bool \<Rightarrow> action list \<times> error option" where
  "stopPlugins c plugins ok =
     (stopPlugins_loop c 0 plugins @ [NvmlShutdown ok],
      if ok then None else Some ErrShutdownNVML)"

text \<open>
  The loop of \<open>startPlugins\<close> over the plugins: the actions and whether a \<open>Start\<close>
  failed (then the function returns at once, with \<open>true\<close> as its second result).
\<close>

fun startPlugins_loop :: "nat \<Rightarrow> nat \<Rightarrow> NvidiaDevicePlugin list \<Rightarrow> action list \<times> bool" where
  "startPlugins_loop c i [] = ([], False)"
| "startPlugins_loop c i (p # ps) =
     (if DevicesLen p = 0 then startPlugins_loop c (Suc i) ps
      else if \<not> StartOk p then ([Start (c, i) p False], True)
      else (case startPlugins_loop c (Suc i) ps of
              (acts, failed) \<Rightarrow> (Start (c, i) p True # acts, failed)))"

definition startPlugins ::
  "nat \<Rightarrow> startPlugins_env \<Rightarrow>
     action list \<times> (NvidiaDevicePlugin list \<times> bool \<times> error option) call" where
  "startPlugins c env =
     (if \<not> loadConfigOk env then ([], Returns ([], False, Some ErrLoadConfig))
      else if \<not> nvmlInitOk env then
        (if FailOnInitError env then ([NvmlInit False], Returns ([], False, Some ErrInitNVML))
         else ([NvmlInit False], Blocks))
      else if \<not> AddDefaultResourcesToConfigOk env
        then ([NvmlInit True], Returns ([], False, Some ErrAddDefaultResources))
      else if \<not> MarshalIndentOk env
        then ([NvmlInit True], Returns ([], False, Some ErrMarshalConfig))
      else if \<not> NewMigStrategyOk env
        then ([NvmlInit True], Returns ([], False, Some ErrMigStrategy))
      else (case startPlugins_loop c 0 (GetPlugins env) of
              (acts, failed) \<Rightarrow> (NvmlInit True # acts, Returns (GetPlugins env, failed, None))))"

text \<open>
  The variables of \<open>start\<close>. \<open>restartTimeout\<close> holds while the timer channel has a
  value still to deliver (a nil channel and a channel that has delivered never do).
  \<open>pluginsRun\<close>, \<open>runs\<close> and \<open>stops\<close> are not variables of the source: they count
  the runs of \<open>startPlugins\<close> and \<open>stopPlugins\<close> and remember which run created
  \<open>plugins\<close>.
\<close>

record supervisor =
  restarting :: bool
  restartTimeout :: bool
  plugins :: "NvidiaDevicePlugin list"
  pluginsRun :: nat
  runs :: nat
  stops :: nat

datatype outcome =
    Exit "error option"
  | Hang
  | Selecting supervisor

text \<open>
  From the label \<open>restart\<close> to the head of the \<open>for\<close> loop: either \<open>start\<close> is
  over (it returned, or it hangs in \<open>startPlugins\<close>), or the loop is entered.
\<close>

definition restart :: "environment \<Rightarrow> supervisor \<Rightarrow> action list \<times> (outcome + supervisor)" where
  "restart env st =
     (case (if restarting st
            then stopPlugins (pluginsRun st) (plugins st) (ShutdownOk env (stops st))
            else ([], None)) of
        (acts1, Some err) \<Rightarrow> (acts1, Inl (Exit (Some (ErrStoppingPreviousRun err))))
      | (acts1, None) \<Rightarrow>
          (case startPlugins (runs st) (startEnv env (runs st)) of
             (acts2, Blocks) \<Rightarrow> (acts1 @ acts2, Inl Hang)
           | (acts2, Returns (ps, restartPlugins, Some err)) \<Rightarrow>
               (acts1 @ acts2, Inl (Exit (Some (ErrStartingPlugins err))))
           | (acts2, Returns (ps, restartPlugins, None)) \<Rightarrow>
               (acts1 @ acts2 @ (if restartPlugins then [ArmTimer 30] else []),
                Inr \<lparr>restarting = True,
                     restartTimeout = (restartPlugins \<or> restartTimeout st),
                     plugins = ps,
                     pluginsRun = runs st,
                     runs = Suc (runs st),
                     stops = (if restarting st then Suc (stops st) else stops st)\<rparr>)))"

text \<open>
  One round of the \<open>select\<close>: where the received event sends the control. The
  timer channel delivers once, to a supervisor whose timer is pending; without a
  pending timer the channel is nil or spent and the \<open>select\<close> cannot receive from it,
  so the loop goes on.
\<close>

datatype branch = Continue | GotoRestart supervisor | GotoExit

definition select :: "environment \<Rightarrow> supervisor \<Rightarrow> event \<Rightarrow> branch" where
  "select env st e =
     (case e of
        RestartTimeout \<Rightarrow>
          if restartTimeout st then GotoRestart (st\<lparr>restartTimeout := False\<rparr>) else Continue
      | WatcherEvent name create \<Rightarrow>
          if name = KubeletSocket env \<and> create then GotoRestart st else Continue
      | WatcherError \<Rightarrow> Continue
      | Sig s \<Rightarrow> if s = SIGHUP then GotoRestart st else GotoExit)"

text \<open>
  The \<open>for\<close> loop on the events it receives, in order. When they are used up the
  loop waits (\<open>Selecting\<close>). The label \<open>exit\<close> stops the plugins and returns.
\<close>

fun selectLoop :: "environment \<Rightarrow> supervisor \<Rightarrow> event list \<Rightarrow> action list \<times> outcome" where
  "selectLoop env st [] = ([], Selecting st)"
| "selectLoop env st (e # es) =
     (case select env st e of
        Continue \<Rightarrow> selectLoop env st es
      | GotoRestart st0 \<Rightarrow>
          (case restart env st0 of
             (acts, Inl out) \<Rightarrow> (acts, out)
           | (acts, Inr st') \<Rightarrow>
               (case selectLoop env st' es of (acts', out) \<Rightarrow> (acts @ acts', out)))
      | GotoExit \<Rightarrow>
          (case stopPlugins (pluginsRun st) (plugins st) (ShutdownOk env (stops st)) of
             (acts, None) \<Rightarrow> (acts, Exit None)
           | (acts, Some err) \<Rightarrow> (acts, Exit (Some (ErrStoppingPlugins err)))))"

definition start :: "environment \<Rightarrow> event list \<Rightarrow> action list \<times> outcome" where
  "start env events =
     (if \<not> newFSWatcherOk env then ([], Exit (Some ErrCreateFSWatcher))
      else (case restart env \<lparr>restarting = False, restartTimeout = False, plugins = [],
                              pluginsRun = 0, runs = 0, stops = 0\<rparr> of
              (acts, Inl out) \<Rightarrow> (acts, out)
            | (acts, Inr st) \<Rightarrow>
                (case selectLoop env st events of (acts', out) \<Rightarrow> (acts @ acts', out))))"

text \<open>
  The endpoints that are started at the end of a sequence of actions: a successful
  \<open>Start\<close> adds its handle, a \<open>Stop\<close> removes it.
\<close>

fun step :: "handle list \<Rightarrow> action \<Rightarrow> handle list" where
  "step R (Start h p ok) = (if ok then h # R else R)"
| "step R (Stop h) = removeAll h R"
| "step R (NvmlInit ok) = R"
| "step R (NvmlShutdown ok) = R"
| "step R (ArmTimer n) = R"

definition started :: "action list \<Rightarrow> handle list" where
  "started acts = foldl step [] acts"

text \<open>
  No two sets of started endpoints overlap: after every action of the sequence, all
  started endpoints were created by the same run of \<open>startPlugins\<close>.
\<close>

fun no_overlap :: "handle list \<Rightarrow> action list \<Rightarrow> bool" where
  "no_overlap R [] = True"
| "no_overlap R (a # acts) =
     (list_all (\<lambda>h. list_all (\<lambda>h'. fst h = fst h') (step R a)) (step R a)
      \<and> no_overlap (step R a) acts)"

text \<open>
  The plugin whose \<open>Start\<close> an action calls, if it is one; and the started endpoints
  that all belong to one run of \<open>startPlugins\<close>.
\<close>

fun attempted :: "action \<Rightarrow> NvidiaDevicePlugin list" where
  "attempted (Start h p ok) = [p]"
| "attempted (Stop h) = []"
| "attempted (NvmlInit ok) = []"
| "attempted (NvmlShutdown ok) = []"
| "attempted (ArmTimer n) = []"

definition in_run :: "nat \<Rightarrow> handle list \<Rightarrow> bool" where
  "in_run c R = (\<forall>h \<in> set R. fst h = c)"

section \<open>Sample values\<close>

text \<open>A device with a given id that is a partition or not, for the examples below.\<close>

definition dev :: "string \<Rightarrow> bool \<Rightarrow> Device" where
  "dev i mig = \<lparr>ID = i, Index = 0, IsPartition = mig, ParentID = None, Profile = [],
               Paths = [], NumaNode = None\<rparr>"

text \<open>
  A placement library for the examples: every id resolves to itself and the policy
  answers the available devices in reverse order.
\<close>

definition reversing_lib :: "string gpuallocator" where
  "reversing_lib = \<lparr>NewDevicesFrom = Inr, Allocate = (\<lambda>available required sz. rev available),
                    UUID_of = (\<lambda>d. d)\<rparr>"

text \<open>
  A partition handle with given slice counts and memory size, and a full GPU that
  offers the given GPU-instance profiles at the indices 0, 1, ...
\<close>

definition partition :: "32 word \<Rightarrow> 32 word \<Rightarrow> 64 word \<Rightarrow> nvmlDevice" where
  "partition g c memMB =
     NvmlDevice (Inr ''MIG-1'') (Inr True) (Inl ERROR_INVALID_ARGUMENT)
       (Inr \<lparr>GpuInstanceSliceCount = g, ComputeInstanceSliceCount = c, MemorySizeMB = memMB\<rparr>)
       (Inl ERROR_INVALID_ARGUMENT) (Inl ERROR_NOT_FOUND) (\<lambda>i. Inl ERROR_INVALID_ARGUMENT)"

definition gpu_offering :: "GpuInstanceProfileInfo list \<Rightarrow> nvmlDevice" where
  "gpu_offering infos =
     NvmlDevice (Inr ''GPU-1'') (Inr False) (Inr (1, 1)) (Inl ERROR_INVALID_ARGUMENT)
       (Inr ''00000000:3B:00.0'') (Inl ERROR_INVALID_ARGUMENT)
       (\<lambda>i. if 0 \<le> i \<and> i < int (length infos) then Inr (infos ! nat i)
            else Inl ERROR_INVALID_ARGUMENT)"

definition fleet :: "nvmlDevice list \<Rightarrow> int \<Rightarrow> nvml" where
  "fleet gpus profile_count =
     \<lparr>DeviceGetCount = Inr (int (length gpus)),
      DeviceGetHandleByIndex =
        (\<lambda>i. if 0 \<le> i \<and> i < int (length gpus) then Inr (gpus ! nat i)
             else Inl ERROR_INVALID_ARGUMENT),
      GPU_INSTANCE_PROFILE_COUNT = profile_count\<rparr>"

text \<open>
  A full GPU at a given bus address, a partition of it, and a host whose files are
  listed with what reading them yields; every other path does not exist.
\<close>

definition gpu_at :: "string \<Rightarrow> nvmlDevice" where
  "gpu_at bus =
     NvmlDevice (Inr ''GPU-1'') (Inr False) (Inr (0, 0)) (Inl ERROR_INVALID_ARGUMENT)
       (Inr bus) (Inl ERROR_INVALID_ARGUMENT) (\<lambda>i. Inl ERROR_NOT_SUPPORTED)"

definition partition_of :: "nvmlDevice \<Rightarrow> nvmlDevice" where
  "partition_of parent =
     NvmlDevice (Inr ''MIG-1'') (Inr True) (Inl ERROR_INVALID_ARGUMENT)
       (Inr \<lparr>GpuInstanceSliceCount = 1, ComputeInstanceSliceCount = 1, MemorySizeMB = 10240\<rparr>)
       (Inl ERROR_INVALID_ARGUMENT) (Inr parent) (\<lambda>i. Inl ERROR_INVALID_ARGUMENT)"

text \<open>
  The examples below are ASCII text, on which the library's Unicode tables are not
  consulted; this record stands for them there, and its answers are never used.
\<close>

definition unconsulted :: unicode where
  "unconsulted = \<lparr>MapToLower = (\<lambda>s. s), TrimFuncIsSpace = (\<lambda>b. b)\<rparr>"

definition host_files :: "(string \<times> (io_error + string)) list \<Rightarrow> filesystem" where
  "host_files fs path = (case map_of fs path of None \<Rightarrow> Inl ENOENT | Some r \<Rightarrow> r)"

text \<open>
  Two pointer helpers for the examples. The first is the one that the name and the
  types at the call sites of \<open>uintPtr\<close> suggest: the pointer to a copy of the value,
  as a \<open>uint\<close>. The second answers nil for the all-ones value. Then an event set
  that reports the given data for every timeout.
\<close>

definition address_of :: "32 word \<Rightarrow> nat option" where
  "address_of c = Some (unat c)"

definition nil_on_sentinel :: "32 word \<Rightarrow> nat option" where
  "nil_on_sentinel c = (if c = 0xFFFFFFFF then None else Some (unat c))"

definition reporting :: "EventData \<Rightarrow> EventSet" where
  "reporting data = (\<lambda>timeout. Inr data)"

text \<open>
  Plugins and environments for the examples: a plugin with a name, a number of
  devices and the result of its \<open>Start\<close>; an environment in which nothing fails but
  what is said, with the plugins of each run of \<open>startPlugins\<close> and the result of
  each shutdown of the library.
\<close>

definition plugin :: "string \<Rightarrow> nat \<Rightarrow> bool \<Rightarrow> NvidiaDevicePlugin" where
  "plugin name n ok = \<lparr>resourceName = name, DevicesLen = n, StartOk = ok\<rparr>"

definition host :: "(nat \<Rightarrow> NvidiaDevicePlugin list) \<Rightarrow> (nat \<Rightarrow> bool) \<Rightarrow> environment" where
  "host ps shutdown =
     \<lparr>newFSWatcherOk = True,
      KubeletSocket = ''/var/lib/kubelet/device-plugins/kubelet.sock'',
      startEnv = (\<lambda>k. \<lparr>loadConfigOk = True, nvmlInitOk = True, FailOnInitError = True,
                        AddDefaultResourcesToConfigOk = True, MarshalIndentOk = True,
                        NewMigStrategyOk = True, GetPlugins = ps k\<rparr>),
      ShutdownOk = shutdown\<rparr>"

section \<open>Device sets: ids, order and duplicates\<close>

lemma Contains_iff: "Contains ds i \<longleftrightarrow> i \<in> ID ` set ds"
  by (auto simp: Contains_def list_ex_iff)

lemma GetByID_Some: "GetByID ds i = Some d \<Longrightarrow> ID d = i \<and> d \<in> set ds"
  by (auto simp: GetByID_def find_Some_iff)

lemma GetByID_None: "GetByID ds i = None \<longleftrightarrow> i \<notin> ID ` set ds"
  by (auto simp: GetByID_def find_None_iff)

lemma set_Subset_ids: "set (map ID (Subset ds ids)) = set ids \<inter> ID ` set ds"
proof (induction ids)
  case Nil
  show ?case by simp
next
  case (Cons i ids)
  show ?case
  proof (cases "GetByID ds i")
    case None
    then have "i \<notin> ID ` set ds" by (simp add: GetByID_None)
    with None Cons show ?thesis by auto
  next
    case (Some d)
    then have d: "ID d = i" "d \<in> set ds" by (auto dest: GetByID_Some)
    have "set (map ID (filter (\<lambda>d'. ID d' \<noteq> i) (Subset ds ids)))
            = set (map ID (Subset ds ids)) - {i}"
      by auto
    with Some Cons d show ?thesis by auto
  qed
qed

lemma distinct_Subset_ids: "distinct (map ID (Subset ds ids))"
proof (induction ids)
  case Nil
  show ?case by simp
next
  case (Cons i ids)
  show ?case
  proof (cases "GetByID ds i")
    case None
    with Cons show ?thesis by simp
  next
    case (Some d)
    then have d: "ID d = i" by (auto dest: GetByID_Some)
    have "distinct (map ID (filter (\<lambda>d'. ID d' \<noteq> i) (Subset ds ids)))"
      using Cons by (simp add: distinct_map_filter)
    with Some d show ?thesis by auto
  qed
qed

lemma Subset_ids_distinct:
  "distinct ids \<Longrightarrow> map ID (Subset ds ids) = filter (\<lambda>i. i \<in> ID ` set ds) ids"
proof (induction ids)
  case Nil
  show ?case by simp
next
  case (Cons i ids)
  then have IH: "map ID (Subset ds ids) = filter (\<lambda>i. i \<in> ID ` set ds) ids"
    and ni: "i \<notin> set ids" by simp_all
  show ?case
  proof (cases "GetByID ds i")
    case None
    then have "i \<notin> ID ` set ds" by (simp add: GetByID_None)
    with None IH show ?thesis by simp
  next
    case (Some d)
    then have d: "ID d = i" "d \<in> set ds" by (auto dest: GetByID_Some)
    have "i \<notin> set (map ID (Subset ds ids))"
      using ni by (simp add: set_Subset_ids del: set_map)
    then have "filter (\<lambda>d'. ID d' \<noteq> i) (Subset ds ids) = Subset ds ids"
      by (auto simp: filter_id_conv)
    with Some d IH show ?thesis by auto
  qed
qed

lemma remainder_ids:
  "GetIDs (Difference (Subset ds available) (Subset ds required))
     = filter (\<lambda>i. i \<notin> set required) (map ID (Subset ds available))"
proof -
  have "\<And>d. d \<in> set (Subset ds available) \<Longrightarrow>
          (\<not> Contains (Subset ds required) (ID d)) = (ID d \<notin> set required)"
  proof -
    fix d assume "d \<in> set (Subset ds available)"
    then have "ID d \<in> set (map ID (Subset ds available))" by simp
    then have "ID d \<in> ID ` set ds" unfolding set_Subset_ids by simp
    moreover have "Contains (Subset ds required) (ID d)
                     = (ID d \<in> set (map ID (Subset ds required)))"
      by (simp add: Contains_iff)
    ultimately show "(\<not> Contains (Subset ds required) (ID d)) = (ID d \<notin> set required)"
      unfolding set_Subset_ids by simp
  qed
  then show ?thesis
    by (simp add: GetIDs_def Difference_def filter_map comp_def cong: filter_cong)
qed

lemma set_remainder:
  "set (GetIDs (Difference (Subset ds available) (Subset ds required)))
     = (set available \<inter> ID ` set ds) - set required"
  unfolding remainder_ids set_filter set_Subset_ids by auto

lemma distinct_remainder:
  "distinct (GetIDs (Difference (Subset ds available) (Subset ds required)))"
  unfolding remainder_ids by (rule distinct_filter) (rule distinct_Subset_ids)

lemma length_remainder_full:
  assumes "distinct available" "distinct required" "set required \<subseteq> set available"
    "set available \<subseteq> ID ` set ds"
  shows "GetIDs (Difference (Subset ds available) (Subset ds required))
           = filter (\<lambda>i. i \<notin> set required) available"
    and "length (GetIDs (Difference (Subset ds available) (Subset ds required)))
           = length available - length required"
proof -
  have "map ID (Subset ds available) = available"
    using assms(1,4) by (simp add: Subset_ids_distinct filter_id_conv subset_iff)
  then show eq: "GetIDs (Difference (Subset ds available) (Subset ds required))
           = filter (\<lambda>i. i \<notin> set required) available"
    by (simp add: remainder_ids)
  have "length (filter (\<lambda>i. i \<notin> set required) available)
          = card (set available - set required)"
    using assms(1) by (metis distinct_card distinct_filter set_diff_eq set_filter)
  also have "\<dots> = card (set available) - card (set required)"
    using assms(3) by (simp add: card_Diff_subset)
  also have "\<dots> = length available - length required"
    using assms(1,2) by (simp add: distinct_card)
  finally show "length (GetIDs (Difference (Subset ds available) (Subset ds required)))
           = length available - length required"
    using eq by simp
qed


lemma alloc_candidates_length:
  assumes "distinct available" "distinct required" "set required \<subseteq> set available"
    "set available \<subseteq> ID ` set ds"
  shows "length (required @ GetIDs (Difference (Subset ds available) (Subset ds required)))
           = length available"
proof -
  have "length required \<le> length available"
    using assms(1-3) by (metis card_mono distinct_card List.finite_set)
  then show ?thesis
    using length_remainder_full(2)[OF assms] by simp
qed


section \<open>Claims on the allocation engine\<close>

text \<open>
  C1. \<open>getPreferredAllocation\<close> answers with the topology-aware policy
  (\<open>alignedAlloc\<close>) if and only if the current device set contains no partition and no
  element of \<open>available\<close> carries an annotation; in every other case it answers with
  the fallback policy (\<open>alloc\<close>). This holds for every device set, every placement
  library, every reading of annotations and every \<open>available\<close>, \<open>required\<close> and
  \<open>size\<close>.
\<close>

theorem getPreferredAllocation_policy:
  "getPreferredAllocation lib HasAnnotations r available required sz =
     (if (\<forall>d \<in> set (devices r). \<not> IsPartition d) \<and> (\<forall>a \<in> set available. \<not> HasAnnotations a)
      then alignedAlloc lib available required sz
      else alloc r available required sz)"
  by (simp add: getPreferredAllocation_def ContainsMigDevices_def AnyHasAnnotations_def
      list_ex_iff)

text \<open>
  The rule at work: two full devices and no annotation give the answer of the library
  (here the reversed list), one partition in the device set or one annotated id in
  \<open>available\<close> gives the answer of \<open>alloc\<close>.
\<close>

theorem getPreferredAllocation_policy_witness:
  "getPreferredAllocation reversing_lib (\<lambda>a. a = ''b'')
      \<lparr>devices = [dev ''a'' False, dev ''c'' False]\<rparr> [''a'', ''c''] [] 2 = Inr [''c'', ''a'']
   \<and> getPreferredAllocation reversing_lib (\<lambda>a. a = ''b'')
      \<lparr>devices = [dev ''a'' False, dev ''c'' True]\<rparr> [''a'', ''c''] [] 2 = Inr [''a'', ''c'']
   \<and> getPreferredAllocation reversing_lib (\<lambda>a. a = ''c'')
      \<lparr>devices = [dev ''a'' False, dev ''c'' False]\<rparr> [''a'', ''c''] [] 2 = Inr [''a'', ''c'']"
  using getPreferredAllocation_policy
      [of reversing_lib "\<lambda>a. a = ''b''" "\<lparr>devices = [dev ''a'' False, dev ''c'' False]\<rparr>"
          "[''a'', ''c'']" "[]" 2]
    getPreferredAllocation_policy
      [of reversing_lib "\<lambda>a. a = ''b''" "\<lparr>devices = [dev ''a'' False, dev ''c'' True]\<rparr>"
          "[''a'', ''c'']" "[]" 2]
    getPreferredAllocation_policy
      [of reversing_lib "\<lambda>a. a = ''c''" "\<lparr>devices = [dev ''a'' False, dev ''c'' False]\<rparr>"
          "[''a'', ''c'']" "[]" 2]
  by (simp add: alignedAlloc_def reversing_lib_def alloc_def GetIDs_def Difference_def
      Contains_def GetByID_def dev_def)

text \<open>
  C2, as the code has it. For duplicate-free \<open>required\<close> and \<open>available\<close> with
  \<open>required\<close> a subset of \<open>available\<close>, every id of \<open>available\<close> a member of the
  current device set, and \<open>0 \<le> size \<le> len(available)\<close>, \<open>alloc\<close> succeeds and the
  returned list has length exactly \<open>size\<close> and no duplicate ids; when moreover
  \<open>len(required) \<le> size\<close> it contains every id of \<open>required\<close> and has \<open>required\<close>,
  in the caller's order, as a prefix.
\<close>

theorem alloc_postconditions:
  assumes "distinct required" and "distinct available"
    and "set required \<subseteq> set available"
    and "set available \<subseteq> ID ` set (devices r)"
    and "0 \<le> sz"
    and "sz \<le> int (length available)"
  shows "\<exists>ids. alloc r available required sz = Inr ids
           \<and> int (length ids) = sz
           \<and> distinct ids
           \<and> (int (length required) \<le> sz \<longrightarrow>
                 set required \<subseteq> set ids \<and> take (length required) ids = required)"
proof -
  let ?rem = "GetIDs (Difference (Subset (devices r) available) (Subset (devices r) required))"
  let ?devs = "required @ ?rem"
  have rem: "?rem = filter (\<lambda>i. i \<notin> set required) available"
    by (rule length_remainder_full(1)[OF assms(2) assms(1) assms(3) assms(4)])
  have devs_len: "length ?devs = length available"
    by (rule alloc_candidates_length[OF assms(2) assms(1) assms(3) assms(4)])
  have le: "nat sz \<le> length ?devs" using assms(6) devs_len by linarith
  have res: "alloc r available required sz = Inr (take (nat sz) ?devs)"
    using assms(5,6) devs_len by (simp add: alloc_def Let_def)
  have dist: "distinct ?devs" using assms(1,2) by (auto simp: rem)
  have "int (length (take (nat sz) ?devs)) = sz" using le assms(5) by simp
  moreover have "distinct (take (nat sz) ?devs)"
    using dist by (rule distinct_take)
  moreover have "set required \<subseteq> set (take (nat sz) ?devs)
                   \<and> take (length required) (take (nat sz) ?devs) = required"
    if "int (length required) \<le> sz"
  proof -
    from that have req_le: "length required \<le> nat sz" by linarith
    then have tk: "take (length required) (take (nat sz) ?devs) = required"
      by (simp add: min_absorb1)
    moreover have "set required \<subseteq> set (take (nat sz) ?devs)"
      by (metis tk set_take_subset)
    ultimately show ?thesis by simp
  qed
  ultimately show ?thesis using res by blast
qed

theorem alloc_postconditions_witness:
  "distinct [''b''] \<and> distinct [''a'', ''b''] \<and> set [''b''] \<subseteq> set [''a'', ''b'']
   \<and> set [''a'', ''b''] \<subseteq> ID ` set [dev ''a'' False, dev ''b'' False]
   \<and> (0 :: int) \<le> 2 \<and> (2 :: int) \<le> int (length [''a'', ''b''])
   \<and> alloc \<lparr>devices = [dev ''a'' False, dev ''b'' False]\<rparr> [''a'', ''b''] [''b''] 2
         = Inr [''b'', ''a'']"
proof -
  have run: "alloc \<lparr>devices = [dev ''a'' False, dev ''b'' False]\<rparr> [''a'', ''b''] [''b''] 2
               = Inr [''b'', ''a'']"
    by (simp add: alloc_def GetIDs_def Difference_def Contains_def GetByID_def dev_def)
  have "\<exists>ids. alloc \<lparr>devices = [dev ''a'' False, dev ''b'' False]\<rparr> [''a'', ''b''] [''b''] 2
                 = Inr ids
           \<and> int (length ids) = 2 \<and> distinct ids
           \<and> (int (length [''b'']) \<le> 2 \<longrightarrow>
                 set [''b''] \<subseteq> set ids \<and> take (length [''b'']) ids = [''b''])"
    using alloc_postconditions
      [of "[''b'']" "[''a'', ''b'']" "\<lparr>devices = [dev ''a'' False, dev ''b'' False]\<rparr>" 2]
    by (simp add: dev_def)
  with run show ?thesis by (simp add: dev_def)
qed

text \<open>
  C2 as stated fails on three inputs that satisfy its hypotheses: an id of
  \<open>available\<close> that the device set does not hold is dropped from the remainder, so the
  candidates run short (first part); a \<open>size\<close> below \<open>len(required)\<close> cuts
  \<open>required\<close> itself (second part); a negative \<open>size\<close> is a negative slice bound
  (third part).
\<close>

theorem alloc_postconditions_counterexample:
  "(distinct ([] :: string list) \<and> distinct [''a''] \<and> set [] \<subseteq> set [''a'']
      \<and> (1 :: int) \<le> int (length [''a''])
      \<and> alloc \<lparr>devices = []\<rparr> [''a''] [] 1 = Inl ErrNotEnoughDevices)
   \<and> (distinct [''a'', ''b''] \<and> set [''a'', ''b''] \<subseteq> set [''a'', ''b'']
      \<and> (1 :: int) \<le> int (length [''a'', ''b''])
      \<and> alloc \<lparr>devices = [dev ''a'' False, dev ''b'' False]\<rparr> [''a'', ''b''] [''a'', ''b''] 1
            = Inr [''a'']
      \<and> \<not> set [''a'', ''b''] \<subseteq> set [''a''])
   \<and> ((-1 :: int) \<le> int (length ([] :: string list))
      \<and> alloc \<lparr>devices = []\<rparr> [] [] (-1) = Inl PanicSliceBounds)"
  by (simp add: alloc_def GetIDs_def Difference_def Contains_def GetByID_def dev_def)

text \<open>
  C3, as the code has it. \<open>alloc\<close> returns the insufficient-devices error exactly
  when the candidate list, \<open>required\<close> followed by the remainder, is shorter than
  \<open>size\<close>; in particular, when \<open>required\<close> has no duplicates, it fails so whenever
  \<open>size\<close> exceeds the number of ids in the union of \<open>available\<close> and \<open>required\<close>;
  and when it fails it returns no id list.
\<close>

theorem alloc_insufficient:
  "(alloc r available required sz = Inl ErrNotEnoughDevices)
     = (int (length (required @ GetIDs (Difference (Subset (devices r) available)
                                                   (Subset (devices r) required)))) < sz)
   \<and> (distinct required \<and> int (card (set available \<union> set required)) < sz
        \<longrightarrow> alloc r available required sz = Inl ErrNotEnoughDevices)
   \<and> (alloc r available required sz = Inl ErrNotEnoughDevices
        \<longrightarrow> (\<forall>ids. alloc r available required sz \<noteq> Inr ids))"
proof -
  let ?rem = "GetIDs (Difference (Subset (devices r) available) (Subset (devices r) required))"
  have first: "(alloc r available required sz = Inl ErrNotEnoughDevices)
                 = (int (length (required @ ?rem)) < sz)"
    by (simp add: alloc_def Let_def)
  have second: "alloc r available required sz = Inl ErrNotEnoughDevices"
    if d: "distinct required" and c: "int (card (set available \<union> set required)) < sz"
  proof -
    have "length ?rem = card (set ?rem)"
      using distinct_remainder by (simp add: distinct_card)
    also have "\<dots> \<le> card (set available - set required)"
      by (rule card_mono) (auto simp: set_remainder)
    finally have "length required + length ?rem
                    \<le> card (set required) + card (set available - set required)"
      using d by (simp add: distinct_card)
    also have "\<dots> = card (set required \<union> (set available - set required))"
      by (rule card_Un_disjoint[symmetric]) auto
    also have "set required \<union> (set available - set required) = set available \<union> set required"
      by auto
    finally have "int (length (required @ ?rem)) < sz" using c by simp
    with first show ?thesis by simp
  qed
  have third: "alloc r available required sz = Inl ErrNotEnoughDevices
                 \<longrightarrow> (\<forall>ids. alloc r available required sz \<noteq> Inr ids)"
    by simp
  show ?thesis using first second third by blast
qed

theorem alloc_insufficient_witness:
  "distinct [''a''] \<and> int (card (set [''a'', ''b''] \<union> set [''a''])) < 3
   \<and> alloc \<lparr>devices = [dev ''a'' False, dev ''b'' False]\<rparr> [''a'', ''b''] [''a''] 3
        = Inl ErrNotEnoughDevices
   \<and> (\<forall>ids. alloc \<lparr>devices = [dev ''a'' False, dev ''b'' False]\<rparr> [''a'', ''b''] [''a''] 3
          \<noteq> Inr ids)"
proof -
  have c: "card (set [''a'', ''b''] \<union> set [''a'']) = 2"
    by (simp add: insert_commute)
  show ?thesis
    using alloc_insufficient
      [of "\<lparr>devices = [dev ''a'' False, dev ''b'' False]\<rparr>" "[''a'', ''b'']" "[''a'']" 3] c
    by simp
qed

text \<open>
  C3 as stated, for every input, fails when \<open>required\<close> repeats an id: the
  candidate list counts the id twice, the union once.
\<close>

theorem alloc_insufficient_counterexample:
  "int (card (set [''a''] \<union> set [''a'', ''a''])) < 2
   \<and> alloc \<lparr>devices = [dev ''a'' False]\<rparr> [''a''] [''a'', ''a''] 2 = Inr [''a'', ''a'']"
  by (simp add: alloc_def GetIDs_def Difference_def Contains_def GetByID_def dev_def)



section \<open>Claims on profile names\<close>

lemma memGB_spec_ceiling:
  "memMB \<le> 1024 * memGB_spec memMB \<and> (\<forall>k. memMB \<le> 1024 * k \<longrightarrow> memGB_spec memMB \<le> k)"
proof -
  define q r where "q = memMB div 1024" and "r = memMB mod 1024"
  then have m: "memMB = 1024 * q + r" and r: "r < 1024" by simp_all
  have g: "memGB_spec memMB = (if r = 0 then q else q + 1)"
    by (simp add: memGB_spec_def q_def r_def)
  show ?thesis unfolding g using m r by (auto; linarith)
qed

lemma round_up_div: "(m + 1023) div 1024 = memGB_spec (m :: nat)"
proof -
  define q r where "q = m div 1024" and "r = m mod 1024"
  then have m: "m = 1024 * q + r" and r: "r < 1024" by simp_all
  have g: "memGB_spec m = (if r = 0 then q else q + 1)"
    by (simp add: memGB_spec_def q_def r_def)
  have "(m + 1023) div 1024 = (if r = 0 then q else q + 1)"
    by (rule Euclidean_Rings.div_nat_eqI) (use m r in \<open>auto\<close>)
  with g show ?thesis by simp
qed

lemma gb_no_overflow:
  fixes m :: "64 word"
  assumes "unat m \<le> 2 ^ 64 - 1024"
  shows "unat ((m + 1024 - 1) div 1024) = memGB_spec (unat m)"
proof -
  have a: "m + 1024 - 1 = m + 1023" by simp
  have b: "unat (m + 1023) = unat m + 1023"
    using assms by (simp add: unat_word_ariths)
  have "unat ((m + 1023) div 1024) = unat (m + 1023) div unat (1024 :: 64 word)"
    by (rule unat_div)
  also have "\<dots> = (unat m + 1023) div 1024"
    by (simp only: b) simp
  finally show ?thesis by (simp only: a round_up_div)
qed

lemma digit_table: "k < 10 \<Longrightarrow> isDigit (''0123456789'' ! k)"
  by (simp add: isDigit_def nth_Cons')

lemma fmt_d_digits: "list_all isDigit (fmt_d n)"
proof (induction n rule: fmt_d.induct)
  case (1 n)
  show ?case
  proof (cases "n < 10")
    case True
    then show ?thesis by (subst fmt_d.simps) (simp add: digit_table)
  next
    case False
    then have "list_all isDigit (fmt_d (n div 10))" using 1 by simp
    moreover have "isDigit (''0123456789'' ! (n mod 10))" by (rule digit_table) simp
    ultimately show ?thesis using False by (subst fmt_d.simps) simp
  qed
qed

lemma takeWhile_digits_fmt_d:
  "\<not> isDigit c \<Longrightarrow> takeWhile isDigit (fmt_d n @ c # xs) = fmt_d n"
  using fmt_d_digits[of n] by (simp add: takeWhile_append2 list_all_iff)

lemma cform_neq_gform:
  "fmt_d a @ ''c.'' @ xs \<noteq> fmt_d b @ ''g.'' @ ys"
proof
  assume eq: "fmt_d a @ ''c.'' @ xs = fmt_d b @ ''g.'' @ ys"
  have "takeWhile isDigit (fmt_d a @ ''c.'' @ xs) = fmt_d a"
    using takeWhile_digits_fmt_d[of "CHR ''c''" a "CHR ''.'' # xs"] by (simp add: isDigit_def)
  moreover have "takeWhile isDigit (fmt_d b @ ''g.'' @ ys) = fmt_d b"
    using takeWhile_digits_fmt_d[of "CHR ''g''" b "CHR ''.'' # ys"] by (simp add: isDigit_def)
  ultimately have "fmt_d a = fmt_d b" using eq by simp
  with eq show False by simp
qed

lemma getMigProfile_partition:
  assumes "isMigDevice dl d = Inr True" and "GetAttributes d = Inr attr"
  shows "getMigProfile dl d =
           Inr (if GpuInstanceSliceCount attr = ComputeInstanceSliceCount attr
                then fmt_d (unat (GpuInstanceSliceCount attr)) @ ''g.''
                       @ fmt_d (unat ((MemorySizeMB attr + 1024 - 1) div 1024)) @ ''gb''
                else fmt_d (unat (ComputeInstanceSliceCount attr)) @ ''c.''
                       @ fmt_d (unat (GpuInstanceSliceCount attr)) @ ''g.''
                       @ fmt_d (unat ((MemorySizeMB attr + 1024 - 1) div 1024)) @ ''gb'')"
  using assms by (simp add: getMigProfile_def Let_def)

text \<open>
  C4, as the code has it. For every partition with GPU-instance slice count \<open>g\<close>,
  compute-instance slice count \<open>c\<close> and memory size \<open>memMB\<close> of at most
  \<open>2^64 - 1024\<close>, the profile string is the one of the specification for
  \<open>memGB = ceil(memMB / 1024)\<close>: \<open>"{g}g.{memGB}gb"\<close> when \<open>g = c\<close> and
  \<open>"{c}c.{g}g.{memGB}gb"\<close> otherwise. The witness has the three examples of the
  claim.
\<close>

theorem getMigProfile_name:
  assumes "isMigDevice dl d = Inr True" and "GetAttributes d = Inr attr"
    and "unat (MemorySizeMB attr) \<le> 2 ^ 64 - 1024"
  shows "getMigProfile dl d =
           Inr (profile_spec (unat (GpuInstanceSliceCount attr))
                             (unat (ComputeInstanceSliceCount attr))
                             (unat (MemorySizeMB attr)))"
  by (simp only: getMigProfile_partition[OF assms(1,2)] profile_spec_def
        gb_no_overflow[OF assms(3)] word_unat_eq_iff[symmetric])

theorem getMigProfile_name_witness:
  "getMigProfile (\<lambda>symbol. True) (partition 1 1 10240) = Inr ''1g.10gb''
   \<and> getMigProfile (\<lambda>symbol. True) (partition 2 1 20480) = Inr ''1c.2g.20gb''
   \<and> getMigProfile (\<lambda>symbol. True) (partition 1 1 10241) = Inr ''1g.11gb''
   \<and> memGB_spec 10241 = 11"
proof -
  have mig: "isMigDevice (\<lambda>symbol. True) (partition g c m) = Inr True" for g c m
    by (simp add: isMigDevice_def nvmlLookupSymbol_def partition_def)
  have attr: "GetAttributes (partition g c m) =
                Inr \<lparr>GpuInstanceSliceCount = g, ComputeInstanceSliceCount = c, MemorySizeMB = m\<rparr>"
    for g c m
    by (simp add: partition_def)
  have "getMigProfile (\<lambda>symbol. True) (partition 1 1 10240) = Inr (profile_spec 1 1 10240)"
    using getMigProfile_name[OF mig[of 1 1 10240] attr[of 1 1 10240]] by simp
  moreover
  have "getMigProfile (\<lambda>symbol. True) (partition 2 1 20480) = Inr (profile_spec 2 1 20480)"
    using getMigProfile_name[OF mig[of 2 1 20480] attr[of 2 1 20480]] by simp
  moreover
  have "getMigProfile (\<lambda>symbol. True) (partition 1 1 10241) = Inr (profile_spec 1 1 10241)"
    using getMigProfile_name[OF mig[of 1 1 10241] attr[of 1 1 10241]] by simp
  moreover have "profile_spec 1 1 10240 = ''1g.10gb''"
    by (simp add: profile_spec_def memGB_spec_def fmt_d.simps)
  moreover have "profile_spec 2 1 20480 = ''1c.2g.20gb''"
    by (simp add: profile_spec_def memGB_spec_def fmt_d.simps)
  moreover have "profile_spec 1 1 10241 = ''1g.11gb''"
    by (simp add: profile_spec_def memGB_spec_def fmt_d.simps)
  moreover have "memGB_spec 10241 = 11"
    by (simp add: memGB_spec_def)
  ultimately show ?thesis by simp
qed

text \<open>
  C4 as stated, for every memory size, fails where the 64-bit sum \<open>memMB + 1023\<close>
  wraps around: for \<open>memMB = 2^64 - 1\<close> the code computes 0 GB, the ceiling is
  \<open>2^54\<close>.
\<close>

theorem getMigProfile_name_counterexample:
  "isMigDevice (\<lambda>symbol. True) (partition 1 1 0xFFFFFFFFFFFFFFFF) = Inr True
   \<and> getMigProfile (\<lambda>symbol. True) (partition 1 1 0xFFFFFFFFFFFFFFFF) = Inr ''1g.0gb''
   \<and> profile_spec (unat (1 :: 32 word)) (unat (1 :: 32 word))
        (unat (0xFFFFFFFFFFFFFFFF :: 64 word)) = ''1g.18014398509481984gb''"
proof -
  have "getMigProfile (\<lambda>symbol. True) (partition 1 1 0xFFFFFFFFFFFFFFFF) = Inr ''1g.0gb''"
    apply (simp add: getMigProfile_def isMigDevice_def nvmlLookupSymbol_def partition_def)
    apply (simp add: fmt_d.simps)
    done
  moreover have "profile_spec (unat (1 :: 32 word)) (unat (1 :: 32 word))
        (unat (0xFFFFFFFFFFFFFFFF :: 64 word)) = ''1g.18014398509481984gb''"
    by (simp add: profile_spec_def memGB_spec_def fmt_d.simps)
  ultimately show ?thesis
    by (simp add: isMigDevice_def nvmlLookupSymbol_def partition_def)
qed


lemma getMigProfile_gform_iff:
  assumes "isMigDevice dl d = Inr True" and "GetAttributes d = Inr attr"
  shows "(getMigProfile dl d =
            Inr (fmt_d (unat (GpuInstanceSliceCount attr)) @ ''g.''
                   @ fmt_d (unat ((MemorySizeMB attr + 1024 - 1) div 1024)) @ ''gb''))
         = (ComputeInstanceSliceCount attr = GpuInstanceSliceCount attr)"
  unfolding getMigProfile_partition[OF assms]
  using cform_neq_gform[of "unat (ComputeInstanceSliceCount attr)" _ "unat (GpuInstanceSliceCount attr)"]
  by (auto simp del: add_diff_cancel)

lemma walkMigProfiles_loop_log:
  assumes "walkMigProfiles_loop gpu (logging f) js (visited, (s, calls)) = (err, (visited', (s', calls')))"
    and "distinct calls" and "\<forall>p \<in> set calls. visited p"
  shows "distinct calls'
         \<and> (err = None \<longrightarrow> (\<forall>p \<in> set calls'. visited' p))
         \<and> (\<forall>p \<in> set calls'. p \<in> set calls \<or>
               (\<exists>j info. GetGpuInstanceProfileInfo gpu j = Inr info \<and> p = fmt_d (unat (SliceCount info)) @ ''g.''
                                                                                           @ fmt_d (unat ((ProfileMemorySizeMB info + 1024 - 1) div 1024)) @ ''gb''))"
  using assms
proof (induction js arbitrary: visited s calls)
  case Nil
  then show ?case by auto
next
  case (Cons j js)
  show ?case
  proof (cases "GetGpuInstanceProfileInfo gpu j")
    case (Inl ret)
    show ?thesis
    proof (cases "ret = ERROR_NOT_SUPPORTED \<or> ret = ERROR_INVALID_ARGUMENT")
      case True
      with Inl Cons.prems(1)
      have "walkMigProfiles_loop gpu (logging f) js (visited, (s, calls)) = (err, (visited', (s', calls')))"
        by auto
      from Cons.IH[OF this Cons.prems(2,3)] show ?thesis .
    next
      case False
      with Inl Cons.prems show ?thesis by auto
    qed
  next
    case (Inr info)
    define p where "p = fmt_d (unat (SliceCount info)) @ ''g.''
                            @ fmt_d (unat ((ProfileMemorySizeMB info + 1024 - 1) div 1024)) @ ''gb''"
    have step: "walkMigProfiles_loop gpu (logging f) (j # js) (visited, (s, calls)) =
        (if visited p then walkMigProfiles_loop gpu (logging f) js (visited, (s, calls))
         else (case logging f p (s, calls) of
                 (Some err, st') \<Rightarrow> (Some err, (visited, st'))
               | (None, st') \<Rightarrow> walkMigProfiles_loop gpu (logging f) js (visited(p := True), st')))"
      unfolding p_def by (simp only: walkMigProfiles_loop.simps Inr sum.case Let_def)
    have pform: "\<exists>j info. GetGpuInstanceProfileInfo gpu j = Inr info \<and> p = fmt_d (unat (SliceCount info)) @ ''g.''
                                                                                            @ fmt_d (unat ((ProfileMemorySizeMB info + 1024 - 1) div 1024)) @ ''gb''"
      using Inr p_def by blast
    show ?thesis
    proof (cases "visited p")
      case True
      with step Cons.prems(1)
      have "walkMigProfiles_loop gpu (logging f) js (visited, (s, calls)) = (err, (visited', (s', calls')))"
        by simp
      from Cons.IH[OF this Cons.prems(2,3)] show ?thesis .
    next
      case False
      then have fresh: "p \<notin> set calls" using Cons.prems(3) by auto
      obtain e s1 where f: "f p s = (e, s1)" by (cases "f p s")
      then have lg: "logging f p (s, calls) = (e, (s1, calls @ [p]))"
        by (simp add: logging_def)
      show ?thesis
      proof (cases e)
        case (Some err1)
        with step False lg Cons.prems(1)
        have "err = Some err1" "calls' = calls @ [p]"
          by simp_all
        with fresh Cons.prems(2) pform show ?thesis
          by auto
      next
        case None
        with step False lg Cons.prems(1)
        have rec: "walkMigProfiles_loop gpu (logging f) js (visited(p := True), (s1, calls @ [p]))
                     = (err, (visited', (s', calls')))"
          by simp
        have d: "distinct (calls @ [p])" using fresh Cons.prems(2) by simp
        have v: "\<forall>q \<in> set (calls @ [p]). (visited(p := True)) q"
          using Cons.prems(3) by auto
        from Cons.IH[OF rec d v] pform show ?thesis
          by auto
      qed
    qed
  qed
qed


lemma walkGPUDevices_loop_log:
  assumes F: "\<And>i gpu visited st. F i gpu (visited, st) =
                (case isMigCapable dl gpu of
                   Inl e \<Rightarrow> (Some (ErrCheckingMigCapable i e), (visited, st))
                 | Inr capable \<Rightarrow>
                     if \<not> capable then (None, (visited, st))
                     else walkMigProfiles_loop gpu (logging f) js (visited, st))"
    and "walkGPUDevices_loop nv F is (visited, (s, calls)) = (err, (visited', (s', calls')))"
    and "distinct calls" and "\<forall>p \<in> set calls. visited p"
  shows "distinct calls'
         \<and> (err = None \<longrightarrow> (\<forall>p \<in> set calls'. visited' p))
         \<and> (\<forall>p \<in> set calls'. p \<in> set calls \<or>
               (\<exists>i gpu j info. DeviceGetHandleByIndex nv i = Inr gpu
                   \<and> GetGpuInstanceProfileInfo gpu j = Inr info \<and> p = fmt_d (unat (SliceCount info)) @ ''g.''
                                                                                    @ fmt_d (unat ((ProfileMemorySizeMB info + 1024 - 1) div 1024)) @ ''gb''))"
  using assms(2-)
proof (induction "is" arbitrary: visited s calls)
  case Nil
  then show ?case by auto
next
  case (Cons i "is")
  show ?case
  proof (cases "DeviceGetHandleByIndex nv i")
    case (Inl ret)
    with Cons.prems show ?thesis by auto
  next
    case (Inr gpu)
    obtain e1 v1 s1 c1 where r1: "F i gpu (visited, (s, calls)) = (e1, (v1, (s1, c1)))"
      by (metis prod.exhaust)
    have inv1: "distinct c1 \<and> (e1 = None \<longrightarrow> (\<forall>p \<in> set c1. v1 p))
         \<and> (\<forall>p \<in> set c1. p \<in> set calls \<or>
               (\<exists>j info. GetGpuInstanceProfileInfo gpu j = Inr info \<and> p = fmt_d (unat (SliceCount info)) @ ''g.''
                                                                                           @ fmt_d (unat ((ProfileMemorySizeMB info + 1024 - 1) div 1024)) @ ''gb''))"
    proof (cases "isMigCapable dl gpu")
      case (Inl e)
      with r1 F Cons.prems(2,3) show ?thesis by auto
    next
      case cap: (Inr capable)
      show ?thesis
      proof (cases capable)
        case False
        with cap r1 F Cons.prems(2,3) show ?thesis by auto
      next
        case True
        with cap r1 F
        have "walkMigProfiles_loop gpu (logging f) js (visited, (s, calls)) = (e1, (v1, (s1, c1)))"
          by simp
        from walkMigProfiles_loop_log[OF this Cons.prems(2,3)] show ?thesis .
      qed
    qed
    show ?thesis
    proof (cases e1)
      case (Some err1)
      with Inr r1 Cons.prems(1) have "err = Some err1" "calls' = c1" by simp_all
      with inv1 Inr show ?thesis by blast
    next
      case None
      with Inr r1 Cons.prems(1)
      have rec: "walkGPUDevices_loop nv F is (v1, (s1, c1)) = (err, (visited', (s', calls')))"
        by simp
      from inv1 None have d: "distinct c1" and v: "\<forall>p \<in> set c1. v1 p" by simp_all
      from Cons.IH[OF rec d v] inv1 Inr show ?thesis by blast
    qed
  qed
qed

text \<open>
  C5, as the code has it. \<open>walkMigProfiles\<close> invokes the callback at most once for
  each distinct profile string, and every string it passes is \<open>"{g}g.{memGB}gb"\<close>
  for the slice count and the memory size of a GPU-instance profile that a GPU of the
  fleet offers, with the same computation of \<open>memGB\<close> as \<open>getMigProfile\<close>. The
  walk has no compute-instance slice count and no case split: its string is the name
  that \<open>getMigProfile\<close> gives to a partition with the same \<open>g\<close> and \<open>memMB\<close>
  exactly when that partition has \<open>c = g\<close>.
\<close>

theorem walkMigProfiles_names:
  assumes "walkMigProfiles dl nv (logging f) (s, []) = (err, (s', calls))"
  shows "distinct calls
         \<and> (\<forall>p \<in> set calls.
               \<exists>i gpu j info. DeviceGetHandleByIndex nv i = Inr gpu
                 \<and> GetGpuInstanceProfileInfo gpu j = Inr info
                 \<and> p = fmt_d (unat (SliceCount info)) @ ''g.''
                                @ fmt_d (unat ((ProfileMemorySizeMB info + 1024 - 1) div 1024)) @ ''gb''
                 \<and> (\<forall>d attr. isMigDevice dl d = Inr True \<and> GetAttributes d = Inr attr
                        \<and> GpuInstanceSliceCount attr = SliceCount info
                        \<and> MemorySizeMB attr = ProfileMemorySizeMB info
                      \<longrightarrow> (getMigProfile dl d = Inr p)
                            = (ComputeInstanceSliceCount attr = GpuInstanceSliceCount attr)))"
proof -
  define F where "F = (\<lambda>i gpu (visited, st).
                case isMigCapable dl gpu of
                  Inl err \<Rightarrow> (Some (ErrCheckingMigCapable i err), (visited, st))
                | Inr capable \<Rightarrow>
                    if \<not> capable then (None, (visited, st))
                    else walkMigProfiles_loop gpu (logging f)
                           [0..GPU_INSTANCE_PROFILE_COUNT nv - 1] (visited, st))"
  have F: "\<And>i gpu visited st. F i gpu (visited, st) =
                (case isMigCapable dl gpu of
                   Inl e \<Rightarrow> (Some (ErrCheckingMigCapable i e), (visited, st))
                 | Inr capable \<Rightarrow>
                     if \<not> capable then (None, (visited, st))
                     else walkMigProfiles_loop gpu (logging f)
                            [0..GPU_INSTANCE_PROFILE_COUNT nv - 1] (visited, st))"
    by (simp add: F_def)
  have w: "walkMigProfiles dl nv (logging f) (s, []) =
             (case walkGPUDevices nv F (\<lambda>_. False, (s, [])) of (err, (visited, st')) \<Rightarrow> (err, st'))"
    by (simp add: walkMigProfiles_def F_def)
  have names: "distinct calls \<and> (\<forall>p \<in> set calls.
               \<exists>i gpu j info. DeviceGetHandleByIndex nv i = Inr gpu
                 \<and> GetGpuInstanceProfileInfo gpu j = Inr info \<and> p = fmt_d (unat (SliceCount info)) @ ''g.''
                                                                                  @ fmt_d (unat ((ProfileMemorySizeMB info + 1024 - 1) div 1024)) @ ''gb'')"
  proof (cases "DeviceGetCount nv")
    case (Inl ret)
    with w assms show ?thesis by (simp add: walkGPUDevices_def)
  next
    case (Inr count)
    obtain e1 v1 s1 c1 where
      r: "walkGPUDevices_loop nv F [0..count - 1] (\<lambda>_. False, (s, [])) = (e1, (v1, (s1, c1)))"
      by (metis prod.exhaust)
    with Inr w assms have "calls = c1" by (simp add: walkGPUDevices_def)
    moreover from walkGPUDevices_loop_log[OF F r] have "distinct c1 \<and> (\<forall>p \<in> set c1.
               \<exists>i gpu j info. DeviceGetHandleByIndex nv i = Inr gpu
                 \<and> GetGpuInstanceProfileInfo gpu j = Inr info \<and> p = fmt_d (unat (SliceCount info)) @ ''g.''
                                                                                  @ fmt_d (unat ((ProfileMemorySizeMB info + 1024 - 1) div 1024)) @ ''gb'')"
      by simp
    ultimately show ?thesis by simp
  qed
  have iff: "(getMigProfile dl d = Inr (fmt_d (unat (SliceCount info)) @ ''g.''
                                            @ fmt_d (unat ((ProfileMemorySizeMB info + 1024 - 1) div 1024)) @ ''gb''))
               = (ComputeInstanceSliceCount attr = GpuInstanceSliceCount attr)"
    if "isMigDevice dl d = Inr True" "GetAttributes d = Inr attr"
       "GpuInstanceSliceCount attr = SliceCount info"
       "MemorySizeMB attr = ProfileMemorySizeMB info" for d attr info
    using getMigProfile_gform_iff[OF that(1,2)] that(3,4) by (simp only:)
  show ?thesis
  proof (intro conjI ballI)
    show "distinct calls" using names by simp
  next
    fix p assume "p \<in> set calls"
    with names obtain i gpu j info where
      "DeviceGetHandleByIndex nv i = Inr gpu" "GetGpuInstanceProfileInfo gpu j = Inr info"
      "p = fmt_d (unat (SliceCount info)) @ ''g.''
               @ fmt_d (unat ((ProfileMemorySizeMB info + 1024 - 1) div 1024)) @ ''gb''"
      by blast
    with iff[of _ _ info] show "\<exists>i gpu j info. DeviceGetHandleByIndex nv i = Inr gpu
                 \<and> GetGpuInstanceProfileInfo gpu j = Inr info
                 \<and> p = fmt_d (unat (SliceCount info)) @ ''g.''
                                @ fmt_d (unat ((ProfileMemorySizeMB info + 1024 - 1) div 1024)) @ ''gb''
                 \<and> (\<forall>d attr. isMigDevice dl d = Inr True \<and> GetAttributes d = Inr attr
                        \<and> GpuInstanceSliceCount attr = SliceCount info
                        \<and> MemorySizeMB attr = ProfileMemorySizeMB info
                      \<longrightarrow> (getMigProfile dl d = Inr p)
                            = (ComputeInstanceSliceCount attr = GpuInstanceSliceCount attr))"
      by blast
  qed
qed

text \<open>
  C5 as stated fails for a partition with \<open>g = 2\<close>, \<open>c = 1\<close> and 20480 MB: the
  walk over a GPU that offers the profile with \<open>g = 2\<close> and 20480 MB reports
  \<open>"2g.20gb"\<close>, the partition is named \<open>"1c.2g.20gb"\<close>.
\<close>

theorem walkMigProfiles_names_counterexample:
  "walkMigProfiles (\<lambda>symbol. True)
      (fleet [gpu_offering [\<lparr>SliceCount = 2, ProfileMemorySizeMB = 20480\<rparr>]] 1)
      (logging (\<lambda>p s. (None, s))) ((), [])
     = (None, ((), [''2g.20gb'']))
   \<and> getMigProfile (\<lambda>symbol. True) (partition 2 1 20480) = Inr ''1c.2g.20gb''"
proof -
  have "walkMigProfiles (\<lambda>symbol. True)
      (fleet [gpu_offering [\<lparr>SliceCount = 2, ProfileMemorySizeMB = 20480\<rparr>]] 1)
      (logging (\<lambda>p s. (None, s))) ((), [])
     = (None, ((), [''2g.20gb'']))"
    by code_simp
  moreover have "getMigProfile (\<lambda>symbol. True) (partition 2 1 20480) = Inr ''1c.2g.20gb''"
    apply (simp add: getMigProfile_def isMigDevice_def nvmlLookupSymbol_def partition_def)
    apply (simp add: fmt_d.simps)
    done
  ultimately show ?thesis by simp
qed


theorem walkMigProfiles_names_witness:
  "walkMigProfiles (\<lambda>symbol. True)
      (fleet [gpu_offering [\<lparr>SliceCount = 1, ProfileMemorySizeMB = 5120\<rparr>,
                            \<lparr>SliceCount = 2, ProfileMemorySizeMB = 10240\<rparr>],
              gpu_offering [\<lparr>SliceCount = 1, ProfileMemorySizeMB = 5120\<rparr>,
                            \<lparr>SliceCount = 7, ProfileMemorySizeMB = 40960\<rparr>]] 2)
      (logging (\<lambda>p s. (None, s))) ((), [])
     = (None, ((), [''1g.5gb'', ''2g.10gb'', ''7g.40gb'']))
   \<and> distinct [''1g.5gb'', ''2g.10gb'', ''7g.40gb'']
   \<and> getMigProfile (\<lambda>symbol. True) (partition 7 7 40960) = Inr ''7g.40gb''"
proof -
  have run: "walkMigProfiles (\<lambda>symbol. True)
      (fleet [gpu_offering [\<lparr>SliceCount = 1, ProfileMemorySizeMB = 5120\<rparr>,
                            \<lparr>SliceCount = 2, ProfileMemorySizeMB = 10240\<rparr>],
              gpu_offering [\<lparr>SliceCount = 1, ProfileMemorySizeMB = 5120\<rparr>,
                            \<lparr>SliceCount = 7, ProfileMemorySizeMB = 40960\<rparr>]] 2)
      (logging (\<lambda>p s. (None, s))) ((), [])
     = (None, ((), [''1g.5gb'', ''2g.10gb'', ''7g.40gb'']))"
    by code_simp
  have "getMigProfile (\<lambda>symbol. True) (partition 7 7 40960) = Inr ''7g.40gb''"
    apply (simp add: getMigProfile_def isMigDevice_def nvmlLookupSymbol_def partition_def)
    apply (simp add: fmt_d.simps)
    done
  with run walkMigProfiles_names[OF run] show ?thesis by simp
qed

section \<open>Claims on the NUMA node\<close>

lemma ToLower_ascii: "list_all isASCII s \<Longrightarrow> ToLower u s = map asciiLower s"
  by (simp add: ToLower_def)

lemma TrimSpace_ascii: "list_all isASCII b \<Longrightarrow> TrimSpace u b = asciiTrimSpace b"
  by (simp add: TrimSpace_def)

lemma busID_key:
  "busID u bus = ToLower u (if take 4 bus = ''0000'' then drop 4 bus else bus)"
proof -
  have len: "length ''0000'' = 4" by simp
  show ?thesis by (simp only: busID_def TrimPrefix_def len)
qed

lemma getNumaNode_resolved:
  assumes "isMigDevice dl d = Inr isMig"
    and "isMig \<longrightarrow> GetDeviceHandleFromMigDeviceHandle d = Inr parent"
    and "GetPciInfoBusId (if isMig then parent else d) = Inr bus"
  shows "getNumaNode u dl ReadFile d =
           (case ReadFile (''/sys/bus/pci/devices/'' @ busID u bus @ ''/numa_node'') of
              Inl err \<Rightarrow> Inr None
            | Inr b \<Rightarrow>
                (case ParseInt8 (TrimSpace u b) of
                   None \<Rightarrow> Inl ErrParsingNumaNode
                 | Some node \<Rightarrow> if node < 0 then Inr None else Inr (Some node)))"
  using assms by (cases isMig) (simp_all add: getNumaNode_def)

text \<open>
  C6, as the code has it. The file that \<open>getNumaNode\<close> reads is determined by the
  bus address of the device (of the parent, for a partition): its path is
  \<open>/sys/bus/pci/devices/\<close>, the key, \<open>/numa_node\<close>, where the key is the bus
  address without one leading \<open>"0000"\<close> (four characters, when it starts so), folded
  to lower case by \<open>strings.ToLower\<close>; the result is what that one file yields, so two
  hosts that agree on it give the same result. For a bus address of ASCII bytes the
  folding maps \<open>A\<close> to \<open>Z\<close> to \<open>a\<close> to \<open>z\<close> and keeps every other byte, whatever
  the library's Unicode tables are. The bus id \<open>"0000:3B:00.0"\<close> becomes
  \<open>":3b:00.0"\<close>, and the bus id \<open>"00000000:3B:00.0"\<close> becomes \<open>"0000:3b:00.0"\<close>.
\<close>

theorem getNumaNode_lookup_key:
  assumes "isMigDevice dl d = Inr isMig"
    and "isMig \<longrightarrow> GetDeviceHandleFromMigDeviceHandle d = Inr parent"
    and "GetPciInfoBusId (if isMig then parent else d) = Inr bus"
  shows "(\<forall>fs. getNumaNode u dl fs d =
            (case fs (''/sys/bus/pci/devices/''
                        @ ToLower u (if take 4 bus = ''0000'' then drop 4 bus else bus)
                        @ ''/numa_node'') of
               Inl err \<Rightarrow> Inr None
             | Inr b \<Rightarrow>
                 (case ParseInt8 (TrimSpace u b) of
                    None \<Rightarrow> Inl ErrParsingNumaNode
                  | Some node \<Rightarrow> if node < 0 then Inr None else Inr (Some node))))
         \<and> (\<forall>fs fs'.
            fs (''/sys/bus/pci/devices/''
                  @ ToLower u (if take 4 bus = ''0000'' then drop 4 bus else bus) @ ''/numa_node'')
            = fs' (''/sys/bus/pci/devices/''
                  @ ToLower u (if take 4 bus = ''0000'' then drop 4 bus else bus) @ ''/numa_node'')
            \<longrightarrow> getNumaNode u dl fs d = getNumaNode u dl fs' d)
         \<and> (list_all isASCII bus \<longrightarrow>
              ToLower u (if take 4 bus = ''0000'' then drop 4 bus else bus)
                = map asciiLower (if take 4 bus = ''0000'' then drop 4 bus else bus))
         \<and> busID u ''0000:3B:00.0'' = '':3b:00.0''
         \<and> busID u ''00000000:3B:00.0'' = ''0000:3b:00.0''"
proof -
  note key = busID_key[of u bus]
  have eq: "getNumaNode u dl fs d =
            (case fs (''/sys/bus/pci/devices/''
                        @ ToLower u (if take 4 bus = ''0000'' then drop 4 bus else bus)
                        @ ''/numa_node'') of
               Inl err \<Rightarrow> Inr None
             | Inr b \<Rightarrow>
                 (case ParseInt8 (TrimSpace u b) of
                    None \<Rightarrow> Inl ErrParsingNumaNode
                  | Some node \<Rightarrow> if node < 0 then Inr None else Inr (Some node)))" for fs
    unfolding getNumaNode_resolved[OF assms] key by (rule refl)
  have dep: "getNumaNode u dl fs d = getNumaNode u dl fs' d"
    if "fs (''/sys/bus/pci/devices/''
              @ ToLower u (if take 4 bus = ''0000'' then drop 4 bus else bus) @ ''/numa_node'')
          = fs' (''/sys/bus/pci/devices/''
              @ ToLower u (if take 4 bus = ''0000'' then drop 4 bus else bus) @ ''/numa_node'')"
    for fs fs'
    unfolding eq using that by (simp only:)
  have ascii: "ToLower u (if take 4 bus = ''0000'' then drop 4 bus else bus)
                = map asciiLower (if take 4 bus = ''0000'' then drop 4 bus else bus)"
    if a: "list_all isASCII bus"
  proof -
    have "list_all isASCII (drop 4 bus)"
      using a by (auto simp: list_all_iff dest: in_set_dropD)
    with a have "list_all isASCII (if take 4 bus = ''0000'' then drop 4 bus else bus)"
      by simp
    then show ?thesis by (rule ToLower_ascii)
  qed
  have e1: "busID u ''0000:3B:00.0'' = '':3b:00.0''"
    by (simp add: busID_def TrimPrefix_def ToLower_def isASCII_def asciiLower_def)
  have e2: "busID u ''00000000:3B:00.0'' = ''0000:3b:00.0''"
    by (simp add: busID_def TrimPrefix_def ToLower_def isASCII_def asciiLower_def)
  from eq dep ascii e1 e2 show ?thesis by blast
qed

text \<open>
  C6 as stated fails on its own example: the key for \<open>"0000:3B:00.0"\<close> is not
  \<open>"3b:00.0"\<close>. A host with a file under \<open>3b:00.0\<close> only is not read (the node is
  absent), a host with the file under \<open>:3b:00.0\<close> is.
\<close>

theorem getNumaNode_lookup_key_counterexample:
  "busID unconsulted ''0000:3B:00.0'' \<noteq> ''3b:00.0''
   \<and> getNumaNode unconsulted (\<lambda>symbol. True)
        (host_files [(''/sys/bus/pci/devices/3b:00.0/numa_node'', Inr ''1'')])
        (gpu_at ''0000:3B:00.0'') = Inr None
   \<and> getNumaNode unconsulted (\<lambda>symbol. True)
        (host_files [(''/sys/bus/pci/devices/:3b:00.0/numa_node'', Inr ''1'')])
        (gpu_at ''0000:3B:00.0'') = Inr (Some 1)"
  by code_simp

theorem getNumaNode_lookup_key_witness:
  "getNumaNode unconsulted (\<lambda>symbol. True)
        (host_files [(''/sys/bus/pci/devices/0000:3b:00.0/numa_node'', Inr ''1'')])
        (partition_of (gpu_at ''00000000:3B:00.0''))
     = getNumaNode unconsulted (\<lambda>symbol. True)
        (host_files [(''/sys/bus/pci/devices/0000:3b:00.0/numa_node'', Inr ''1''),
                     (''/sys/bus/pci/devices/3b:00.0/numa_node'', Inr ''0'')])
        (partition_of (gpu_at ''00000000:3B:00.0''))
   \<and> getNumaNode unconsulted (\<lambda>symbol. True)
        (host_files [(''/sys/bus/pci/devices/0000:3b:00.0/numa_node'', Inr ''1'')])
        (partition_of (gpu_at ''00000000:3B:00.0'')) = Inr (Some 1)
   \<and> list_all isASCII ''00000000:3B:00.0''
   \<and> map asciiLower (drop 4 ''00000000:3B:00.0'') = ''0000:3b:00.0''"
proof -
  have mig: "isMigDevice (\<lambda>symbol. True) (partition_of (gpu_at ''00000000:3B:00.0'')) = Inr True"
    by (simp add: isMigDevice_def nvmlLookupSymbol_def partition_of_def)
  have par: "True \<longrightarrow> GetDeviceHandleFromMigDeviceHandle (partition_of (gpu_at ''00000000:3B:00.0''))
               = Inr (gpu_at ''00000000:3B:00.0'')"
    by (simp add: partition_of_def)
  have bus: "GetPciInfoBusId (if True then gpu_at ''00000000:3B:00.0''
                              else partition_of (gpu_at ''00000000:3B:00.0''))
               = Inr ''00000000:3B:00.0''"
    by (simp add: gpu_at_def)
  have same: "host_files [(''/sys/bus/pci/devices/0000:3b:00.0/numa_node'', Inr ''1'')]
                (''/sys/bus/pci/devices/''
                  @ ToLower unconsulted (if take 4 ''00000000:3B:00.0'' = ''0000''
                             then drop 4 ''00000000:3B:00.0'' else ''00000000:3B:00.0'')
                  @ ''/numa_node'')
              = host_files [(''/sys/bus/pci/devices/0000:3b:00.0/numa_node'', Inr ''1''),
                     (''/sys/bus/pci/devices/3b:00.0/numa_node'', Inr ''0'')]
                (''/sys/bus/pci/devices/''
                  @ ToLower unconsulted (if take 4 ''00000000:3B:00.0'' = ''0000''
                             then drop 4 ''00000000:3B:00.0'' else ''00000000:3B:00.0'')
                  @ ''/numa_node'')"
    by (simp add: host_files_def ToLower_def isASCII_def asciiLower_def)
  have val: "getNumaNode unconsulted (\<lambda>symbol. True)
        (host_files [(''/sys/bus/pci/devices/0000:3b:00.0/numa_node'', Inr ''1'')])
        (partition_of (gpu_at ''00000000:3B:00.0'')) = Inr (Some 1)"
    by code_simp
  have asc: "list_all isASCII ''00000000:3B:00.0''"
    by (simp add: isASCII_def)
  have low: "map asciiLower (drop 4 ''00000000:3B:00.0'') = ''0000:3b:00.0''"
    by (simp add: asciiLower_def)
  from getNumaNode_lookup_key[OF mig par bus, where u = unconsulted] same val asc low
  show ?thesis by blast
qed

text \<open>
  C7, as the code has it. With the device resolved and its bus address read: every
  failure of reading the file, whatever its cause, yields an absent NUMA node and no
  error; a file that is read and whose content, trimmed by \<open>bytes.TrimSpace\<close>, parses
  to a negative number yields absent and no error; a file that is read and does not
  parse (as a decimal number of 8 bits with sign, from -128 to 127) yields the parse
  error; a file that parses to a number from 0 on yields that node. So the result is
  an error exactly when the file is read and does not parse, and absent exactly when
  the file is not read or parses to a negative number: the two never meet. For a
  content of ASCII bytes the trimming removes the six ASCII white-space bytes at both
  ends, whatever the library's Unicode tables are.
\<close>

theorem getNumaNode_outcomes:
  assumes "isMigDevice dl d = Inr isMig"
    and "isMig \<longrightarrow> GetDeviceHandleFromMigDeviceHandle d = Inr parent"
    and "GetPciInfoBusId (if isMig then parent else d) = Inr bus"
  shows "(\<forall>err. fs (''/sys/bus/pci/devices/'' @ busID u bus @ ''/numa_node'') = Inl err
            \<longrightarrow> getNumaNode u dl fs d = Inr None)
       \<and> (\<forall>b. fs (''/sys/bus/pci/devices/'' @ busID u bus @ ''/numa_node'') = Inr b \<longrightarrow>
            (case ParseInt8 (TrimSpace u b) of
               None \<Rightarrow> getNumaNode u dl fs d = Inl ErrParsingNumaNode
             | Some node \<Rightarrow>
                 (node < 0 \<longrightarrow> getNumaNode u dl fs d = Inr None)
                 \<and> (0 \<le> node \<longrightarrow> getNumaNode u dl fs d = Inr (Some node))))
       \<and> ((\<exists>e. getNumaNode u dl fs d = Inl e)
            = (\<exists>b. fs (''/sys/bus/pci/devices/'' @ busID u bus @ ''/numa_node'') = Inr b
                    \<and> ParseInt8 (TrimSpace u b) = None))
       \<and> ((getNumaNode u dl fs d = Inr None)
            = ((\<exists>err. fs (''/sys/bus/pci/devices/'' @ busID u bus @ ''/numa_node'') = Inl err)
               \<or> (\<exists>b node. fs (''/sys/bus/pci/devices/'' @ busID u bus @ ''/numa_node'') = Inr b
                    \<and> ParseInt8 (TrimSpace u b) = Some node \<and> node < 0)))
       \<and> (\<forall>b. list_all isASCII b \<longrightarrow>
              TrimSpace u b = rev (dropWhile isSpace (rev (dropWhile isSpace b))))"
proof -
  let ?r = "fs (''/sys/bus/pci/devices/'' @ busID u bus @ ''/numa_node'')"
  note res = getNumaNode_resolved[OF assms, of u fs]
  have c1: "\<forall>err. ?r = Inl err \<longrightarrow> getNumaNode u dl fs d = Inr None"
    unfolding res by simp
  have c2: "\<forall>b. ?r = Inr b \<longrightarrow>
            (case ParseInt8 (TrimSpace u b) of
               None \<Rightarrow> getNumaNode u dl fs d = Inl ErrParsingNumaNode
             | Some node \<Rightarrow>
                 (node < 0 \<longrightarrow> getNumaNode u dl fs d = Inr None)
                 \<and> (0 \<le> node \<longrightarrow> getNumaNode u dl fs d = Inr (Some node)))"
    unfolding res by (auto split: option.splits)
  have c3: "(\<exists>e. getNumaNode u dl fs d = Inl e)
            = (\<exists>b. ?r = Inr b \<and> ParseInt8 (TrimSpace u b) = None)"
    unfolding res by (auto split: sum.splits option.splits)
  have c4: "(getNumaNode u dl fs d = Inr None)
            = ((\<exists>err. ?r = Inl err)
               \<or> (\<exists>b node. ?r = Inr b \<and> ParseInt8 (TrimSpace u b) = Some node \<and> node < 0))"
    unfolding res by (auto split: sum.splits option.splits)
  have c5: "\<forall>b. list_all isASCII b \<longrightarrow>
              TrimSpace u b = rev (dropWhile isSpace (rev (dropWhile isSpace b)))"
    by (simp add: TrimSpace_ascii asciiTrimSpace_def)
  from c1 c2 c3 c4 c5 show ?thesis by (intro conjI)
qed

text \<open>
  C7 as stated fails for a file that is present and cannot be read: permission denied
  and an I/O error both yield an absent node, not an error.
\<close>

theorem getNumaNode_outcomes_counterexample:
  "host_files [(''/sys/bus/pci/devices/0000:3b:00.0/numa_node'', Inl EACCES)]
       ''/sys/bus/pci/devices/0000:3b:00.0/numa_node'' = Inl EACCES
   \<and> getNumaNode unconsulted (\<lambda>symbol. True)
        (host_files [(''/sys/bus/pci/devices/0000:3b:00.0/numa_node'', Inl EACCES)])
        (gpu_at ''00000000:3B:00.0'') = Inr None
   \<and> getNumaNode unconsulted (\<lambda>symbol. True)
        (host_files [(''/sys/bus/pci/devices/0000:3b:00.0/numa_node'', Inl EIO)])
        (gpu_at ''00000000:3B:00.0'') = Inr None"
  by code_simp

theorem getNumaNode_outcomes_witness:
  "getNumaNode unconsulted (\<lambda>symbol. True) (host_files []) (gpu_at ''00000000:3B:00.0'')
     = Inr None
   \<and> getNumaNode unconsulted (\<lambda>symbol. True)
        (host_files [(''/sys/bus/pci/devices/0000:3b:00.0/numa_node'',
                      Inr [CHR ''-'', CHR ''1'', CHR 0x0A])])
        (gpu_at ''00000000:3B:00.0'') = Inr None
   \<and> getNumaNode unconsulted (\<lambda>symbol. True)
        (host_files [(''/sys/bus/pci/devices/0000:3b:00.0/numa_node'', Inr ''1x'')])
        (gpu_at ''00000000:3B:00.0'') = Inl ErrParsingNumaNode
   \<and> getNumaNode unconsulted (\<lambda>symbol. True)
        (host_files [(''/sys/bus/pci/devices/0000:3b:00.0/numa_node'', Inr ''-200'')])
        (gpu_at ''00000000:3B:00.0'') = Inl ErrParsingNumaNode
   \<and> getNumaNode unconsulted (\<lambda>symbol. True)
        (host_files [(''/sys/bus/pci/devices/0000:3b:00.0/numa_node'',
                      Inr [CHR ''1'', CHR 0x0A])])
        (gpu_at ''00000000:3B:00.0'') = Inr (Some 1)
   \<and> list_all isASCII [CHR ''1'', CHR 0x0A]
   \<and> TrimSpace unconsulted [CHR ''1'', CHR 0x0A] = ''1''"
proof -
  have mig: "isMigDevice (\<lambda>symbol. True) (gpu_at ''00000000:3B:00.0'') = Inr False"
    by (simp add: isMigDevice_def nvmlLookupSymbol_def gpu_at_def)
  have par: "False \<longrightarrow> GetDeviceHandleFromMigDeviceHandle (gpu_at ''00000000:3B:00.0'')
               = Inr (gpu_at ''00000000:3B:00.0'')"
    by simp
  have bus: "GetPciInfoBusId (if False then gpu_at ''00000000:3B:00.0''
                              else gpu_at ''00000000:3B:00.0'')
               = Inr ''00000000:3B:00.0''"
    by (simp add: gpu_at_def)
  have missing: "host_files [] (''/sys/bus/pci/devices/'' @ busID unconsulted ''00000000:3B:00.0''
                                 @ ''/numa_node'') = Inl ENOENT"
    by (simp add: host_files_def)
  note out = getNumaNode_outcomes[OF mig par bus, where fs = "host_files []" and u = unconsulted]
  have "getNumaNode unconsulted (\<lambda>symbol. True) (host_files []) (gpu_at ''00000000:3B:00.0'')
          = Inr None"
    using out missing by blast
  moreover have "getNumaNode unconsulted (\<lambda>symbol. True)
        (host_files [(''/sys/bus/pci/devices/0000:3b:00.0/numa_node'',
                      Inr [CHR ''-'', CHR ''1'', CHR 0x0A])])
        (gpu_at ''00000000:3B:00.0'') = Inr None"
    by code_simp
  moreover have "getNumaNode unconsulted (\<lambda>symbol. True)
        (host_files [(''/sys/bus/pci/devices/0000:3b:00.0/numa_node'', Inr ''1x'')])
        (gpu_at ''00000000:3B:00.0'') = Inl ErrParsingNumaNode"
    by code_simp
  moreover have "getNumaNode unconsulted (\<lambda>symbol. True)
        (host_files [(''/sys/bus/pci/devices/0000:3b:00.0/numa_node'', Inr ''-200'')])
        (gpu_at ''00000000:3B:00.0'') = Inl ErrParsingNumaNode"
    by code_simp
  moreover have "getNumaNode unconsulted (\<lambda>symbol. True)
        (host_files [(''/sys/bus/pci/devices/0000:3b:00.0/numa_node'',
                      Inr [CHR ''1'', CHR 0x0A])])
        (gpu_at ''00000000:3B:00.0'') = Inr (Some 1)"
    by code_simp
  moreover have asc: "list_all isASCII [CHR ''1'', CHR 0x0A]"
    by (simp add: isASCII_def)
  moreover have "TrimSpace unconsulted [CHR ''1'', CHR 0x0A] = ''1''"
  proof -
    from out asc have "TrimSpace unconsulted [CHR ''1'', CHR 0x0A]
        = rev (dropWhile isSpace (rev (dropWhile isSpace [CHR ''1'', CHR 0x0A])))"
      by blast
    then show ?thesis by (simp add: isSpace_def)
  qed
  ultimately show ?thesis by blast
qed

section \<open>Claims on hardware events\<close>

text \<open>
  C8, as the code has it. For every successful wait the event carries the id of the
  reporting device and the class and payload of the event data. When the reporting
  handle is a partition handle, its two sub-identifiers are the GPU-instance id and
  the compute-instance id of the event data, passed through the pointer helper; when
  it is not, both are the 32-bit all-ones value \<open>0xFFFFFFFF\<close> passed through the
  same helper, whatever ids the event data held. This holds for every helper.
\<close>

theorem nvmlWaitForEvent_ids:
  assumes "nvmlWaitForEvent uintPtr es timeout = Inr event"
  shows "\<exists>data uuid isMig.
           es (ucast timeout) = Inr data
           \<and> GetUUID (Device data) = Inr uuid
           \<and> IsMigDeviceHandle (Device data) = Inr isMig
           \<and> UUID event = Some uuid
           \<and> Etype event = EventType data
           \<and> Edata event = EventData data
           \<and> (isMig \<longrightarrow> GpuInstanceID event = uintPtr (GpuInstanceId data)
                      \<and> ComputeInstanceID event = uintPtr (ComputeInstanceId data))
           \<and> (\<not> isMig \<longrightarrow> GpuInstanceID event = uintPtr 0xFFFFFFFF
                      \<and> ComputeInstanceID event = uintPtr 0xFFFFFFFF)"
  using assms
  by (auto simp: nvmlWaitForEvent_def Let_def split: sum.splits if_splits)

text \<open>
  C8 as stated fails for a full GPU: with the helper that points to a copy of its
  argument, the two fields are not nil; they point to 4294967295 (first part). A
  helper that answers nil for that value does not save the claim: then the fields of
  a partition handle that reports the id \<open>0xFFFFFFFF\<close> are nil (second part).
\<close>

theorem nvmlWaitForEvent_ids_counterexample:
  "(IsMigDeviceHandle (gpu_at ''00000000:3B:00.0'') = Inr False
    \<and> nvmlWaitForEvent address_of
         (reporting \<lparr>Device = gpu_at ''00000000:3B:00.0'', EventType = 8, EventData = 79,
                      GpuInstanceId = 0, ComputeInstanceId = 0\<rparr>) 5000
       = Inr \<lparr>UUID = Some ''GPU-1'', GpuInstanceID = Some 4294967295,
               ComputeInstanceID = Some 4294967295, Etype = 8, Edata = 79\<rparr>)
   \<and> (IsMigDeviceHandle (partition_of (gpu_at ''00000000:3B:00.0'')) = Inr True
    \<and> nvmlWaitForEvent nil_on_sentinel
         (reporting \<lparr>Device = partition_of (gpu_at ''00000000:3B:00.0''), EventType = 8,
                      EventData = 79, GpuInstanceId = 0xFFFFFFFF,
                      ComputeInstanceId = 0xFFFFFFFF\<rparr>) 5000
       = Inr \<lparr>UUID = Some ''MIG-1'', GpuInstanceID = None,
               ComputeInstanceID = None, Etype = 8, Edata = 79\<rparr>)"
  by (simp add: nvmlWaitForEvent_def reporting_def gpu_at_def partition_of_def address_of_def
      nil_on_sentinel_def)

theorem nvmlWaitForEvent_ids_witness:
  "nvmlWaitForEvent address_of
        (reporting \<lparr>Device = partition_of (gpu_at ''00000000:3B:00.0''), EventType = 8,
                     EventData = 79, GpuInstanceId = 3, ComputeInstanceId = 0\<rparr>) 5000
      = Inr \<lparr>UUID = Some ''MIG-1'', GpuInstanceID = Some 3,
              ComputeInstanceID = Some 0, Etype = 8, Edata = 79\<rparr>
   \<and> GpuInstanceID \<lparr>UUID = Some ''MIG-1'', GpuInstanceID = Some 3,
              ComputeInstanceID = Some 0, Etype = 8, Edata = 79\<rparr> = address_of 3"
proof -
  have run: "nvmlWaitForEvent address_of
        (reporting \<lparr>Device = partition_of (gpu_at ''00000000:3B:00.0''), EventType = 8,
                     EventData = 79, GpuInstanceId = 3, ComputeInstanceId = 0\<rparr>) 5000
      = Inr \<lparr>UUID = Some ''MIG-1'', GpuInstanceID = Some 3,
              ComputeInstanceID = Some 0, Etype = 8, Edata = 79\<rparr>"
    by (simp add: nvmlWaitForEvent_def reporting_def partition_of_def address_of_def)
  from nvmlWaitForEvent_ids[OF run] run show ?thesis
    by (simp add: reporting_def partition_of_def address_of_def)
qed

section \<open>Claims on the supervisor\<close>

subsection \<open>The actions of the loops\<close>

lemma stopPlugins_loop_map:
  "stopPlugins_loop c i ps = map (\<lambda>k. Stop (c, k)) [i..<i + length ps]"
proof (induction ps arbitrary: i)
  case Nil
  show ?case by simp
next
  case (Cons p ps)
  have "[i..<i + length (p # ps)] = i # [Suc i..<i + length (p # ps)]"
    by (rule upt_conv_Cons) simp
  moreover have "i + length (p # ps) = Suc i + length ps" by simp
  ultimately have "[i..<i + length (p # ps)] = i # [Suc i..<Suc i + length ps]"
    by (simp only:)
  with Cons[of "Suc i"] show ?case by (simp del: upt_Suc length_Cons add_Suc_right add_Suc)
qed

lemma step_stops:
  "foldl step R (map (\<lambda>k. Stop (c, k)) ks) = filter (\<lambda>h. \<not> (fst h = c \<and> snd h \<in> set ks)) R"
proof (induction ks arbitrary: R)
  case Nil
  show ?case by simp
next
  case (Cons k ks)
  have "removeAll (c, k) R = filter (\<lambda>h. h \<noteq> (c, k)) R"
    by (induction R) auto
  then show ?case
    by (simp add: Cons) (rule filter_cong, auto)
qed

lemma no_overlap_append:
  "no_overlap R (xs @ ys) = (no_overlap R xs \<and> no_overlap (foldl step R xs) ys)"
  by (induction xs arbitrary: R) auto

lemma in_run_single:
  "in_run c R \<Longrightarrow> list_all (\<lambda>h. list_all (\<lambda>h'. fst h = fst h') R) R"
  by (auto simp: in_run_def list_all_iff)

lemma in_run_step_stop: "in_run c R \<Longrightarrow> in_run c (step R (Stop h))"
  by (auto simp: in_run_def)

lemma no_overlap_stops:
  "in_run c R \<Longrightarrow> no_overlap R (map (\<lambda>k. Stop (c', k)) ks)"
proof (induction ks arbitrary: R)
  case Nil
  show ?case by simp
next
  case (Cons k ks)
  have "in_run c (step R (Stop (c', k)))" using Cons.prems by (rule in_run_step_stop)
  then show ?case using Cons.IH in_run_single by simp
qed

lemma startPlugins_loop_inv:
  assumes "in_run c R"
  shows "no_overlap R (fst (startPlugins_loop c i ps))
         \<and> in_run c (foldl step R (fst (startPlugins_loop c i ps)))
         \<and> (\<forall>h \<in> set (foldl step R (fst (startPlugins_loop c i ps))).
               h \<in> set R \<or> (i \<le> snd h \<and> snd h < i + length ps))"
  using assms
proof (induction ps arbitrary: i R)
  case Nil
  then show ?case by simp
next
  case (Cons p ps)
  show ?case
  proof (cases "DevicesLen p = 0")
    case True
    with Cons.IH[OF Cons.prems, of "Suc i"] show ?thesis by auto
  next
    case False
    show ?thesis
    proof (cases "StartOk p")
      case no: False
      with False Cons.prems show ?thesis
        by (auto simp: in_run_single)
    next
      case True
      have r: "in_run c ((c, i) # R)" using Cons.prems by (simp add: in_run_def)
      obtain acts failed where l: "startPlugins_loop c (Suc i) ps = (acts, failed)"
        by (cases "startPlugins_loop c (Suc i) ps")
      from Cons.IH[OF r, of "Suc i"] l
      have "no_overlap ((c, i) # R) acts"
        and "in_run c (foldl step ((c, i) # R) acts)"
        and "\<forall>h \<in> set (foldl step ((c, i) # R) acts).
               h \<in> set ((c, i) # R) \<or> (Suc i \<le> snd h \<and> snd h < Suc i + length ps)"
        by simp_all
      with False True l in_run_single[OF r] show ?thesis
        by auto
    qed
  qed
qed


lemma startPlugins_inv:
  assumes "startPlugins c e = (acts, res)"
  shows "no_overlap [] acts \<and> in_run c (foldl step [] acts)
         \<and> (\<forall>ps rp. res = Returns (ps, rp, None) \<longrightarrow>
               (\<forall>h \<in> set (foldl step [] acts). snd h < length ps))"
proof -
  have e: "in_run c []" by (simp add: in_run_def)
  obtain la lf where l: "startPlugins_loop c 0 (GetPlugins e) = (la, lf)"
    by (cases "startPlugins_loop c 0 (GetPlugins e)")
  from startPlugins_loop_inv[OF e, of 0 "GetPlugins e"] l
  have "no_overlap [] la" "in_run c (foldl step [] la)"
    "\<forall>h \<in> set (foldl step [] la). snd h < length (GetPlugins e)"
    by auto
  with assms l e show ?thesis
    by (auto simp: startPlugins_def split: if_splits)
qed

lemma restart_inv:
  assumes "restart env st = (acts, r)"
    and "(restarting st \<and> in_run (pluginsRun st) R \<and> (\<forall>h \<in> set R. snd h < length (plugins st)))
         \<or> (\<not> restarting st \<and> R = [])"
  shows "no_overlap R acts
         \<and> (\<forall>st'. r = Inr st' \<longrightarrow>
               restarting st' \<and> in_run (pluginsRun st') (foldl step R acts)
               \<and> (\<forall>h \<in> set (foldl step R acts). snd h < length (plugins st')))"
proof -
  define pre where "pre = (if restarting st
      then stopPlugins_loop (pluginsRun st) 0 (plugins st) @ [NvmlShutdown (ShutdownOk env (stops st))]
      else [])"
  have R1: "foldl step R pre = []"
    using assms(2) by (auto simp: pre_def stopPlugins_loop_map step_stops in_run_def filter_empty_conv)
  have no1: "no_overlap R pre"
  proof (cases "restarting st")
    case True
    with assms(2) have ir: "in_run (pluginsRun st) R" by simp
    have "foldl step R (stopPlugins_loop (pluginsRun st) 0 (plugins st)) = []"
      using assms(2) True
      by (auto simp: stopPlugins_loop_map step_stops in_run_def filter_empty_conv)
    with True no_overlap_stops[OF ir] show ?thesis
      by (simp add: pre_def stopPlugins_loop_map no_overlap_append)
  next
    case False
    then show ?thesis by (simp add: pre_def)
  qed
  obtain acts2 res where sp: "startPlugins (runs st) (startEnv env (runs st)) = (acts2, res)"
    by (cases "startPlugins (runs st) (startEnv env (runs st))")
  note inv2 = startPlugins_inv[OF sp]
  have req: "restart env st =
      (if restarting st \<and> \<not> ShutdownOk env (stops st)
       then (pre, Inl (Exit (Some (ErrStoppingPreviousRun ErrShutdownNVML))))
       else (case res of
               Blocks \<Rightarrow> (pre @ acts2, Inl Hang)
             | Returns (ps, rp, Some err) \<Rightarrow> (pre @ acts2, Inl (Exit (Some (ErrStartingPlugins err))))
             | Returns (ps, rp, None) \<Rightarrow>
                 (pre @ acts2 @ (if rp then [ArmTimer 30] else []),
                  Inr \<lparr>restarting = True,
                       restartTimeout = (rp \<or> restartTimeout st),
                       plugins = ps,
                       pluginsRun = runs st,
                       runs = Suc (runs st),
                       stops = (if restarting st then Suc (stops st) else stops st)\<rparr>)))"
    by (auto simp: restart_def stopPlugins_def pre_def sp split: call.splits option.splits)
  show ?thesis
  proof (cases "restarting st \<and> \<not> ShutdownOk env (stops st)")
    case True
    with assms(1) req have "acts = pre" "\<forall>st'. r \<noteq> Inr st'"
      by auto
    with no1 show ?thesis by simp
  next
    case False
    show ?thesis
    proof (cases res)
      case Blocks
      with False req assms(1) have "acts = pre @ acts2" "\<forall>st'. r \<noteq> Inr st'"
        by auto
      with no1 R1 inv2 show ?thesis by (simp add: no_overlap_append)
    next
      case (Returns x)
      obtain ps rp err where x: "x = (ps, rp, err)" by (cases x)
      show ?thesis
      proof (cases err)
        case (Some e)
        with False req assms(1) Returns x have "acts = pre @ acts2" "\<forall>st'. r \<noteq> Inr st'"
          by auto
        with no1 R1 inv2 show ?thesis by (simp add: no_overlap_append)
      next
        case None
        with False req assms(1) Returns x
        have a: "acts = pre @ acts2 @ (if rp then [ArmTimer 30] else [])"
          and r: "\<exists>st'. r = Inr st' \<and> restarting st' \<and> pluginsRun st' = runs st \<and> plugins st' = ps"
          by auto
        have f: "foldl step R acts = foldl step [] acts2"
          by (simp add: a R1)
        have "no_overlap R acts"
          using no1 R1 inv2 in_run_single[of "runs st" "foldl step [] acts2"]
          by (simp add: a no_overlap_append)
        moreover from inv2 Returns x None
        have "\<forall>h \<in> set (foldl step [] acts2). snd h < length ps" by simp
        ultimately show ?thesis using r inv2 f by auto
      qed
    qed
  qed
qed

lemma select_keeps:
  "select env st e = GotoRestart st0 \<Longrightarrow>
     restarting st0 = restarting st \<and> plugins st0 = plugins st \<and> pluginsRun st0 = pluginsRun st"
  by (auto simp: select_def split: event.splits if_splits)

lemma selectLoop_inv:
  assumes "restarting st" and "in_run (pluginsRun st) R"
    and "\<forall>h \<in> set R. snd h < length (plugins st)"
  shows "no_overlap R (fst (selectLoop env st es))"
  using assms
proof (induction es arbitrary: st R)
  case Nil
  show ?case by simp
next
  case (Cons e es)
  show ?case
  proof (cases "select env st e")
    case Continue
    with Cons show ?thesis by simp
  next
    case GotoExit
    have "no_overlap R (stopPlugins_loop (pluginsRun st) 0 (plugins st)
                          @ [NvmlShutdown (ShutdownOk env (stops st))])"
      using no_overlap_stops[OF Cons.prems(2)] Cons.prems
      by (auto simp: stopPlugins_loop_map no_overlap_append step_stops in_run_def list_all_iff)
    with GotoExit show ?thesis
      by (auto simp: stopPlugins_def)
  next
    case (GotoRestart st0)
    note k = select_keeps[OF GotoRestart]
    obtain acts r where rs: "restart env st0 = (acts, r)" by (cases "restart env st0")
    have pre: "(restarting st0 \<and> in_run (pluginsRun st0) R \<and> (\<forall>h \<in> set R. snd h < length (plugins st0)))
         \<or> (\<not> restarting st0 \<and> R = [])"
      using k Cons.prems by simp
    note inv = restart_inv[OF rs pre]
    show ?thesis
    proof (cases r)
      case (Inl out)
      with GotoRestart rs inv show ?thesis by simp
    next
      case (Inr st')
      with inv have "restarting st'" "in_run (pluginsRun st') (foldl step R acts)"
        "\<forall>h \<in> set (foldl step R acts). snd h < length (plugins st')"
        by simp_all
      from Cons.IH[OF this] have "no_overlap (foldl step R acts) (fst (selectLoop env st' es))" .
      with GotoRestart rs Inr inv show ?thesis
        by (simp add: no_overlap_append case_prod_unfold)
    qed
  qed
qed

lemma start_no_overlap: "no_overlap [] (fst (start env events))"
proof (cases "newFSWatcherOk env")
  case False
  then show ?thesis by (simp add: start_def)
next
  case True
  define st0 where "st0 = \<lparr>restarting = False, restartTimeout = False, plugins = [],
                              pluginsRun = 0, runs = 0, stops = 0\<rparr>"
  obtain acts r where rs: "restart env st0 = (acts, r)" by (cases "restart env st0")
  have pre: "(restarting st0 \<and> in_run (pluginsRun st0) [] \<and> (\<forall>h \<in> set []. snd h < length (plugins st0)))
         \<or> (\<not> restarting st0 \<and> [] = ([] :: handle list))"
    by (simp add: st0_def)
  note inv = restart_inv[OF rs pre]
  show ?thesis
  proof (cases r)
    case (Inl out)
    with True rs inv show ?thesis by (simp add: start_def st0_def[symmetric])
  next
    case (Inr st')
    with inv have "restarting st'" "in_run (pluginsRun st') (foldl step [] acts)"
      "\<forall>h \<in> set (foldl step [] acts). snd h < length (plugins st')"
      by simp_all
    from selectLoop_inv[OF this] have "no_overlap (foldl step [] acts) (fst (selectLoop env st' events))" .
    with True rs Inr inv show ?thesis
      by (simp add: start_def st0_def[symmetric] no_overlap_append case_prod_unfold)
  qed
qed


subsection \<open>One run of the start loop\<close>

lemma startPlugins_loop_attempted:
  "concat (map attempted (fst (startPlugins_loop c i ps)))
     = takeWhile StartOk (filter (\<lambda>p. DevicesLen p \<noteq> 0) ps)
       @ take 1 (dropWhile StartOk (filter (\<lambda>p. DevicesLen p \<noteq> 0) ps))"
  by (induction ps arbitrary: i) (simp_all add: case_prod_unfold)

lemma startPlugins_loop_failed:
  "snd (startPlugins_loop c i ps) = (\<exists>p \<in> set ps. DevicesLen p \<noteq> 0 \<and> \<not> StartOk p)"
  by (induction ps arbitrary: i) (auto simp: case_prod_unfold)

lemma startPlugins_loop_last:
  "snd (startPlugins_loop c i ps) \<Longrightarrow>
     \<exists>acts0 h p. fst (startPlugins_loop c i ps) = acts0 @ [Start h p False]"
proof (induction ps arbitrary: i)
  case Nil
  then show ?case by simp
next
  case (Cons p ps)
  show ?case
  proof (cases "DevicesLen p = 0")
    case True
    with Cons show ?thesis by simp
  next
    case False
    show ?thesis
    proof (cases "StartOk p")
      case no: False
      with False show ?thesis by auto
    next
      case True
      with False Cons.prems have "snd (startPlugins_loop c (Suc i) ps)"
        by (simp add: case_prod_unfold)
      from Cons.IH[OF this] obtain acts0 h q where
        "fst (startPlugins_loop c (Suc i) ps) = acts0 @ [Start h q False]" by blast
      with False True have
        "fst (startPlugins_loop c i (p # ps)) = (Start (c, i) p True # acts0) @ [Start h q False]"
        by (simp add: case_prod_unfold)
      then show ?thesis by blast
    qed
  qed
qed

lemma startPlugins_loop_actions:
  "a \<in> set (fst (startPlugins_loop c i ps)) \<Longrightarrow>
     \<exists>h p. a = Start h p (StartOk p) \<and> DevicesLen p \<noteq> 0 \<and> p \<in> set ps"
proof (induction ps arbitrary: i)
  case Nil
  then show ?case by simp
next
  case (Cons p ps)
  from Cons.prems
  have "(a = Start (c, i) p (StartOk p) \<and> DevicesLen p \<noteq> 0)
        \<or> a \<in> set (fst (startPlugins_loop c (Suc i) ps))"
    by (cases "DevicesLen p = 0"; cases "StartOk p") (auto simp: case_prod_unfold)
  with Cons.IH[of "Suc i"] show ?case by auto
qed

lemma startPlugins_actions:
  "a \<in> set (fst (startPlugins c e)) \<Longrightarrow>
     (\<exists>ok. a = NvmlInit ok) \<or> (\<exists>h p. a = Start h p (StartOk p) \<and> DevicesLen p \<noteq> 0)"
  using startPlugins_loop_actions[of a c 0 "GetPlugins e"]
  by (auto simp: startPlugins_def split: if_splits prod.splits)

lemma restart_actions:
  "a \<in> set (fst (restart env st)) \<Longrightarrow>
     (\<exists>h. a = Stop h) \<or> (\<exists>ok. a = NvmlShutdown ok) \<or> (\<exists>ok. a = NvmlInit ok) \<or> a = ArmTimer 30
     \<or> (\<exists>h p. a = Start h p (StartOk p) \<and> DevicesLen p \<noteq> 0)"
proof -
  assume a: "a \<in> set (fst (restart env st))"
  obtain acts2 res where sp: "startPlugins (runs st) (startEnv env (runs st)) = (acts2, res)"
    by (cases "startPlugins (runs st) (startEnv env (runs st))")
  have "set (fst (restart env st))
          \<subseteq> set (stopPlugins_loop (pluginsRun st) 0 (plugins st))
            \<union> {NvmlShutdown (ShutdownOk env (stops st))} \<union> set acts2 \<union> {ArmTimer 30}"
    by (auto simp: restart_def stopPlugins_def sp split: call.splits option.splits if_splits)
  with a startPlugins_actions[of a "runs st" "startEnv env (runs st)"] sp show ?thesis
    by (auto simp: stopPlugins_loop_map)
qed

lemma selectLoop_actions:
  "a \<in> set (fst (selectLoop env st es)) \<Longrightarrow>
     (\<exists>h. a = Stop h) \<or> (\<exists>ok. a = NvmlShutdown ok) \<or> (\<exists>ok. a = NvmlInit ok) \<or> a = ArmTimer 30
     \<or> (\<exists>h p. a = Start h p (StartOk p) \<and> DevicesLen p \<noteq> 0)"
proof (induction es arbitrary: st)
  case Nil
  then show ?case by simp
next
  case (Cons e es)
  show ?case
  proof (cases "select env st e")
    case Continue
    with Cons show ?thesis by simp
  next
    case GotoExit
    with Cons.prems show ?thesis
      by (auto simp: stopPlugins_def stopPlugins_loop_map split: if_splits)
  next
    case (GotoRestart st0)
    obtain acts r where rs: "restart env st0 = (acts, r)" by (cases "restart env st0")
    show ?thesis
    proof (cases r)
      case (Inl out)
      with GotoRestart rs Cons.prems have "a \<in> set (fst (restart env st0))" by simp
      then show ?thesis by (rule restart_actions)
    next
      case (Inr st')
      with GotoRestart rs Cons.prems
      have "a \<in> set (fst (restart env st0)) \<or> a \<in> set (fst (selectLoop env st' es))"
        by (auto simp: case_prod_unfold)
      then show ?thesis using restart_actions Cons.IH by blast
    qed
  qed
qed

lemma start_actions:
  "a \<in> set (fst (start env events)) \<Longrightarrow>
     (\<exists>h. a = Stop h) \<or> (\<exists>ok. a = NvmlShutdown ok) \<or> (\<exists>ok. a = NvmlInit ok) \<or> a = ArmTimer 30
     \<or> (\<exists>h p. a = Start h p (StartOk p) \<and> DevicesLen p \<noteq> 0)"
proof -
  assume a: "a \<in> set (fst (start env events))"
  define st0 where "st0 = \<lparr>restarting = False, restartTimeout = False, plugins = [],
                              pluginsRun = 0, runs = 0, stops = 0\<rparr>"
  obtain acts r where rs: "restart env st0 = (acts, r)" by (cases "restart env st0")
  show ?thesis
  proof (cases r)
    case (Inl out)
    with rs a have "a \<in> set (fst (restart env st0))"
      by (auto simp: start_def st0_def[symmetric] split: if_splits)
    then show ?thesis by (rule restart_actions)
  next
    case (Inr st')
    with rs a
    have "a \<in> set (fst (restart env st0)) \<or> a \<in> set (fst (selectLoop env st' events))"
      by (auto simp: start_def st0_def[symmetric] case_prod_unfold split: if_splits)
    then show ?thesis using restart_actions selectLoop_actions by blast
  qed
qed

subsection \<open>A failed start and the re-entry\<close>

lemma restart_failed_start:
  assumes "restart env st = (acts, Inr st')"
    and "\<exists>p \<in> set (plugins st'). DevicesLen p \<noteq> 0 \<and> \<not> StartOk p"
  shows "restartTimeout st' \<and> (\<exists>acts0 h p. acts = acts0 @ [Start h p False, ArmTimer 30])"
proof -
  let ?e = "startEnv env (runs st)"
  obtain la lf where l: "startPlugins_loop (runs st) 0 (GetPlugins ?e) = (la, lf)"
    by (cases "startPlugins_loop (runs st) 0 (GetPlugins ?e)")
  from assms(1) l have ps: "plugins st' = GetPlugins ?e"
    and rt: "restartTimeout st' = (lf \<or> restartTimeout st)"
    and ex: "\<exists>pre. acts = pre @ la @ (if lf then [ArmTimer 30] else [])"
    by (auto simp: restart_def stopPlugins_def startPlugins_def
        split: if_splits prod.splits option.splits)
  from assms(2) ps startPlugins_loop_failed[of "runs st" 0 "GetPlugins ?e"] l
  have lf: lf by simp
  with startPlugins_loop_last[of "runs st" 0 "GetPlugins ?e"] l
  obtain acts0 h p where "la = acts0 @ [Start h p False]" by auto
  with ex lf rt show ?thesis by auto
qed

lemma restart_stops_first:
  assumes "restarting st"
  shows "\<exists>rest. fst (restart env st)
                  = map (\<lambda>k. Stop (pluginsRun st, k)) [0..<length (plugins st)]
                      @ NvmlShutdown (ShutdownOk env (stops st)) # rest
           \<and> (if ShutdownOk env (stops st)
               then \<exists>tail. rest = fst (startPlugins (runs st) (startEnv env (runs st))) @ tail
               else rest = []
                    \<and> snd (restart env st)
                        = Inl (Exit (Some (ErrStoppingPreviousRun ErrShutdownNVML))))"
  using assms
  by (auto simp: restart_def stopPlugins_def stopPlugins_loop_map
      split: prod.splits call.splits option.splits)

lemma selectLoop_timer:
  assumes "restartTimeout st"
  shows "selectLoop env st (RestartTimeout # es) =
           (case restart env (st\<lparr>restartTimeout := False\<rparr>) of
              (acts, Inl out) \<Rightarrow> (acts, out)
            | (acts, Inr st') \<Rightarrow>
                (case selectLoop env st' es of (acts', out) \<Rightarrow> (acts @ acts', out)))"
  using assms by (simp add: select_def)

lemma restart_waiting:
  "restart env st = (acts, Inr st') \<Longrightarrow> restarting st' \<and> pluginsRun st' < runs st'"
  by (auto simp: restart_def split: prod.splits call.splits option.splits if_splits)

lemma selectLoop_waiting:
  "restarting st \<Longrightarrow> pluginsRun st < runs st \<Longrightarrow> snd (selectLoop env st es) = Selecting st'
     \<Longrightarrow> restarting st' \<and> pluginsRun st' < runs st'"
proof (induction es arbitrary: st)
  case Nil
  then show ?case by simp
next
  case (Cons e es)
  show ?case
  proof (cases "select env st e")
    case Continue
    with Cons show ?thesis by simp
  next
    case GotoExit
    with Cons.prems show ?thesis
      by (auto simp: stopPlugins_def split: if_splits)
  next
    case (GotoRestart st0)
    obtain acts r where rs: "restart env st0 = (acts, r)" by (cases "restart env st0")
    show ?thesis
    proof (cases r)
      case (Inl out)
      with GotoRestart rs Cons.prems have "out = Selecting st'" by simp
      with rs Inl show ?thesis
        by (auto simp: restart_def split: prod.splits call.splits option.splits if_splits)
    next
      case (Inr st1)
      with rs have "restarting st1" "pluginsRun st1 < runs st1"
        using restart_waiting by blast+
      moreover from GotoRestart rs Inr Cons.prems
      have "snd (selectLoop env st1 es) = Selecting st'"
        by (simp add: case_prod_unfold)
      ultimately show ?thesis by (rule Cons.IH)
    qed
  qed
qed

lemma start_waiting:
  "snd (start env events) = Selecting st' \<Longrightarrow> restarting st' \<and> pluginsRun st' < runs st'"
proof -
  assume a: "snd (start env events) = Selecting st'"
  define st0 where "st0 = \<lparr>restarting = False, restartTimeout = False, plugins = [],
                              pluginsRun = 0, runs = 0, stops = 0\<rparr>"
  obtain acts r where rs: "restart env st0 = (acts, r)" by (cases "restart env st0")
  show ?thesis
  proof (cases r)
    case (Inl out)
    with rs a have "out = Selecting st'"
      by (auto simp: start_def st0_def[symmetric] split: if_splits)
    with rs Inl show ?thesis
      by (auto simp: restart_def split: prod.splits call.splits option.splits if_splits)
  next
    case (Inr st1)
    with rs have "restarting st1" "pluginsRun st1 < runs st1"
      using restart_waiting by blast+
    moreover from rs Inr a have "snd (selectLoop env st1 events) = Selecting st'"
      by (auto simp: start_def st0_def[symmetric] case_prod_unfold split: if_splits)
    ultimately show ?thesis by (rule selectLoop_waiting)
  qed
qed

lemma restart_not_selecting:
  "restart env st = (acts, Inl out) \<Longrightarrow> out \<noteq> Selecting st'"
  by (auto simp: restart_def split: prod.splits call.splits option.splits if_splits)

lemma selectLoop_append:
  "snd (selectLoop env st es1) = Selecting st' \<Longrightarrow>
     selectLoop env st (es1 @ es2)
       = (fst (selectLoop env st es1) @ fst (selectLoop env st' es2),
          snd (selectLoop env st' es2))"
proof (induction es1 arbitrary: st)
  case Nil
  then show ?case by simp
next
  case (Cons e es)
  show ?case
  proof (cases "select env st e")
    case Continue
    with Cons show ?thesis by simp
  next
    case GotoExit
    with Cons.prems show ?thesis
      by (auto simp: stopPlugins_def split: if_splits)
  next
    case (GotoRestart st0)
    obtain acts r where rs: "restart env st0 = (acts, r)" by (cases "restart env st0")
    show ?thesis
    proof (cases r)
      case (Inl out)
      with GotoRestart rs Cons.prems have "out = Selecting st'" by simp
      with rs Inl restart_not_selecting show ?thesis by blast
    next
      case (Inr st1)
      with GotoRestart rs Cons.prems
      have "snd (selectLoop env st1 es) = Selecting st'"
        by (simp add: case_prod_unfold)
      from Cons.IH[OF this] GotoRestart rs Inr show ?thesis
        by (simp add: case_prod_unfold)
    qed
  qed
qed

lemma start_append:
  assumes "snd (start env es1) = Selecting st'"
  shows "start env (es1 @ es2)
           = (fst (start env es1) @ fst (selectLoop env st' es2), snd (selectLoop env st' es2))"
proof -
  define st0 where "st0 = \<lparr>restarting = False, restartTimeout = False, plugins = [],
                              pluginsRun = 0, runs = 0, stops = 0\<rparr>"
  obtain acts r where rs: "restart env st0 = (acts, r)" by (cases "restart env st0")
  from assms have w: "newFSWatcherOk env" by (auto simp: start_def split: if_splits)
  show ?thesis
  proof (cases r)
    case (Inl out)
    with rs w assms have "out = Selecting st'"
      by (simp add: start_def st0_def[symmetric])
    with rs Inl restart_not_selecting show ?thesis by blast
  next
    case (Inr st1)
    with rs w assms have "snd (selectLoop env st1 es1) = Selecting st'"
      by (simp add: start_def st0_def[symmetric] case_prod_unfold)
    from selectLoop_append[OF this, of es2] rs w Inr show ?thesis
      by (simp add: start_def st0_def[symmetric] case_prod_unfold)
  qed
qed

lemma restart_keeps_new_handles:
  assumes "restart env st = (acts, Inr st')" and "restarting st \<longrightarrow> pluginsRun st < runs st"
  shows "Stop (pluginsRun st', k) \<notin> set acts"
proof
  assume in_acts: "Stop (pluginsRun st', k) \<in> set acts"
  obtain acts2 res where sp: "startPlugins (runs st) (startEnv env (runs st)) = (acts2, res)"
    by (cases "startPlugins (runs st) (startEnv env (runs st))")
  from assms(1) have new: "pluginsRun st' = runs st"
    by (auto simp: restart_def split: prod.splits call.splits option.splits if_splits)
  have "set acts \<subseteq> (if restarting st then set (stopPlugins_loop (pluginsRun st) 0 (plugins st))
                                    else {})
            \<union> {NvmlShutdown (ShutdownOk env (stops st))} \<union> set acts2 \<union> {ArmTimer 30}"
    using assms(1)
    by (auto simp: restart_def stopPlugins_def sp split: call.splits option.splits if_splits)
  with in_acts new
  have "(restarting st \<and> Stop (runs st, k) \<in> set (stopPlugins_loop (pluginsRun st) 0 (plugins st)))
        \<or> Stop (runs st, k) \<in> set acts2"
    by (auto split: if_splits)
  then show False
  proof
    assume "restarting st \<and> Stop (runs st, k) \<in> set (stopPlugins_loop (pluginsRun st) 0 (plugins st))"
    with assms(2) show False by (auto simp: stopPlugins_loop_map)
  next
    assume "Stop (runs st, k) \<in> set acts2"
    with startPlugins_actions[of "Stop (runs st, k)" "runs st" "startEnv env (runs st)"] sp
    show False by simp
  qed
qed

text \<open>
  C9, as the code has it.
  \<^item> In one run of the start loop the plugins with devices are started in order up to
    and including the first whose \<open>Start\<close> fails; plugins with zero devices are
    skipped; the run reports a failure exactly when such a plugin fails.
  \<^item> When a \<open>Start\<close> has failed, nothing is started after it in that run and a timer
    of 30 seconds is armed; the run stops none of the handles it has created.
  \<^item> When the timer fires, the control goes to the label \<open>restart\<close>: every handle
    created by the run is stopped and the library is shut down; if the shutdown
    succeeds the plugins are started again, otherwise \<open>start\<close> returns the error.
  \<^item> In every run of \<open>start\<close>, on every sequence of events: the loop only waits in
    the restarting state, with plugins of an earlier run, and goes on from there on
    the events that follow; after every action all started endpoints belong to one
    run of \<open>startPlugins\<close>, so the endpoints of a run are all stopped before one of
    the next is started; every \<open>Start\<close> is of a plugin with devices, and every
    timer is of 30 seconds.
\<close>

theorem supervisor_restart_cycle:
  "(\<forall>c i ps.
      concat (map attempted (fst (startPlugins_loop c i ps)))
        = takeWhile StartOk (filter (\<lambda>p. DevicesLen p \<noteq> 0) ps)
          @ take 1 (dropWhile StartOk (filter (\<lambda>p. DevicesLen p \<noteq> 0) ps))
      \<and> snd (startPlugins_loop c i ps) = (\<exists>p \<in> set ps. DevicesLen p \<noteq> 0 \<and> \<not> StartOk p))
   \<and> (\<forall>env st acts st'.
        restart env st = (acts, Inr st')
        \<and> (\<exists>p \<in> set (plugins st'). DevicesLen p \<noteq> 0 \<and> \<not> StartOk p)
        \<longrightarrow> restartTimeout st' \<and> (\<exists>acts0 h p. acts = acts0 @ [Start h p False, ArmTimer 30]))
   \<and> (\<forall>env st es.
        restartTimeout st \<longrightarrow>
        selectLoop env st (RestartTimeout # es) =
           (case restart env (st\<lparr>restartTimeout := False\<rparr>) of
              (acts, Inl out) \<Rightarrow> (acts, out)
            | (acts, Inr st') \<Rightarrow>
                (case selectLoop env st' es of (acts', out) \<Rightarrow> (acts @ acts', out))))
   \<and> (\<forall>env st.
        restarting st \<longrightarrow>
        (\<exists>rest. fst (restart env st)
                  = map (\<lambda>k. Stop (pluginsRun st, k)) [0..<length (plugins st)]
                      @ NvmlShutdown (ShutdownOk env (stops st)) # rest
           \<and> (if ShutdownOk env (stops st)
               then \<exists>tail. rest = fst (startPlugins (runs st) (startEnv env (runs st))) @ tail
               else rest = []
                    \<and> snd (restart env st)
                        = Inl (Exit (Some (ErrStoppingPreviousRun ErrShutdownNVML))))))
   \<and> (\<forall>env st acts st' k.
        restart env st = (acts, Inr st') \<and> (restarting st \<longrightarrow> pluginsRun st < runs st)
        \<longrightarrow> Stop (pluginsRun st', k) \<notin> set acts)
   \<and> (\<forall>env events st.
        snd (start env events) = Selecting st \<longrightarrow> restarting st \<and> pluginsRun st < runs st)
   \<and> (\<forall>env es1 es2 st.
        snd (start env es1) = Selecting st \<longrightarrow>
        start env (es1 @ es2)
          = (fst (start env es1) @ fst (selectLoop env st es2), snd (selectLoop env st es2)))
   \<and> (\<forall>env events. no_overlap [] (fst (start env events)))
   \<and> (\<forall>env events a.
        a \<in> set (fst (start env events)) \<longrightarrow>
        (\<forall>h p ok. a = Start h p ok \<longrightarrow> DevicesLen p \<noteq> 0 \<and> ok = StartOk p)
        \<and> (\<forall>n. a = ArmTimer n \<longrightarrow> n = 30))"
proof (intro conjI allI impI)
  fix c i ps
  show "concat (map attempted (fst (startPlugins_loop c i ps)))
        = takeWhile StartOk (filter (\<lambda>p. DevicesLen p \<noteq> 0) ps)
          @ take 1 (dropWhile StartOk (filter (\<lambda>p. DevicesLen p \<noteq> 0) ps))"
    by (rule startPlugins_loop_attempted)
  show "snd (startPlugins_loop c i ps) = (\<exists>p \<in> set ps. DevicesLen p \<noteq> 0 \<and> \<not> StartOk p)"
    by (rule startPlugins_loop_failed)
next
  fix env st acts st'
  assume a: "restart env st = (acts, Inr st')
        \<and> (\<exists>p \<in> set (plugins st'). DevicesLen p \<noteq> 0 \<and> \<not> StartOk p)"
  from restart_failed_start[of env st acts st'] a
  show "restartTimeout st'" and "\<exists>acts0 h p. acts = acts0 @ [Start h p False, ArmTimer 30]"
    by blast+
next
  fix env and st :: supervisor and es
  assume "restartTimeout st"
  then show "selectLoop env st (RestartTimeout # es) =
           (case restart env (st\<lparr>restartTimeout := False\<rparr>) of
              (acts, Inl out) \<Rightarrow> (acts, out)
            | (acts, Inr st') \<Rightarrow>
                (case selectLoop env st' es of (acts', out) \<Rightarrow> (acts @ acts', out)))"
    by (rule selectLoop_timer)
next
  fix env and st :: supervisor
  assume "restarting st"
  then show "\<exists>rest. fst (restart env st)
                  = map (\<lambda>k. Stop (pluginsRun st, k)) [0..<length (plugins st)]
                      @ NvmlShutdown (ShutdownOk env (stops st)) # rest
           \<and> (if ShutdownOk env (stops st)
               then \<exists>tail. rest = fst (startPlugins (runs st) (startEnv env (runs st))) @ tail
               else rest = []
                    \<and> snd (restart env st)
                        = Inl (Exit (Some (ErrStoppingPreviousRun ErrShutdownNVML))))"
    by (rule restart_stops_first)
next
  fix env st acts st' k
  assume "restart env st = (acts, Inr st') \<and> (restarting st \<longrightarrow> pluginsRun st < runs st)"
  then show "Stop (pluginsRun st', k) \<notin> set acts"
    using restart_keeps_new_handles by blast
next
  fix env events st
  assume "snd (start env events) = Selecting st"
  from start_waiting[OF this] show "restarting st" and "pluginsRun st < runs st"
    by simp_all
next
  fix env es1 es2 st
  assume "snd (start env es1) = Selecting st"
  then show "start env (es1 @ es2)
          = (fst (start env es1) @ fst (selectLoop env st es2), snd (selectLoop env st es2))"
    by (rule start_append)
next
  fix env events
  show "no_overlap [] (fst (start env events))" by (rule start_no_overlap)
next
  fix env events a h p ok
  assume "a \<in> set (fst (start env events))" and "a = Start h p ok"
  with start_actions[of a env events]
  show "DevicesLen p \<noteq> 0" and "ok = StartOk p" by auto
next
  fix env events a n
  assume "a \<in> set (fst (start env events))" and "a = ArmTimer n"
  with start_actions[of a env events]
  show "n = 30" by auto
qed

text \<open>
  C9 as stated fails in two ways. After a failed \<open>Start\<close> the handles of the run are
  not stopped before the timer is armed: while the loop waits, the endpoint that did
  start is still started (first and second part). And when the timer fires and the
  shutdown of the library fails, \<open>start\<close> returns an error and the plugins are not
  started again (third part).
\<close>

theorem supervisor_restart_cycle_counterexample:
  "start (host (\<lambda>k. [plugin ''gpu'' 2 True, plugin ''mig'' 1 False]) (\<lambda>k. False)) []
     = ([NvmlInit True, Start (0, 0) (plugin ''gpu'' 2 True) True,
         Start (0, 1) (plugin ''mig'' 1 False) False, ArmTimer 30],
        Selecting \<lparr>restarting = True, restartTimeout = True,
                   plugins = [plugin ''gpu'' 2 True, plugin ''mig'' 1 False],
                   pluginsRun = 0, runs = 1, stops = 0\<rparr>)
   \<and> started [NvmlInit True, Start (0, 0) (plugin ''gpu'' 2 True) True,
               Start (0, 1) (plugin ''mig'' 1 False) False, ArmTimer 30] = [(0, 0)]
   \<and> start (host (\<lambda>k. [plugin ''gpu'' 2 True, plugin ''mig'' 1 False]) (\<lambda>k. False))
        [RestartTimeout]
     = ([NvmlInit True, Start (0, 0) (plugin ''gpu'' 2 True) True,
         Start (0, 1) (plugin ''mig'' 1 False) False, ArmTimer 30,
         Stop (0, 0), Stop (0, 1), NvmlShutdown False],
        Exit (Some (ErrStoppingPreviousRun ErrShutdownNVML)))"
  by code_simp

text \<open>
  A run with a failed start, the timer, a second run that succeeds, a timer event that
  cannot arrive any more, and a termination signal.
\<close>

theorem supervisor_restart_cycle_witness:
  "start (host (\<lambda>k. if k = 0
                     then [plugin ''zero'' 0 True, plugin ''gpu'' 2 True,
                           plugin ''mig'' 1 False, plugin ''late'' 1 True]
                     else [plugin ''zero'' 0 True, plugin ''gpu'' 2 True, plugin ''mig'' 1 True])
               (\<lambda>k. True))
         [WatcherError, RestartTimeout, RestartTimeout, Sig SIGTERM]
     = ([NvmlInit True, Start (0, 1) (plugin ''gpu'' 2 True) True,
         Start (0, 2) (plugin ''mig'' 1 False) False, ArmTimer 30,
         Stop (0, 0), Stop (0, 1), Stop (0, 2), Stop (0, 3), NvmlShutdown True,
         NvmlInit True, Start (1, 1) (plugin ''gpu'' 2 True) True,
         Start (1, 2) (plugin ''mig'' 1 True) True,
         Stop (1, 0), Stop (1, 1), Stop (1, 2), NvmlShutdown True],
        Exit None)
   \<and> no_overlap []
        [NvmlInit True, Start (0, 1) (plugin ''gpu'' 2 True) True,
         Start (0, 2) (plugin ''mig'' 1 False) False, ArmTimer 30,
         Stop (0, 0), Stop (0, 1), Stop (0, 2), Stop (0, 3), NvmlShutdown True,
         NvmlInit True, Start (1, 1) (plugin ''gpu'' 2 True) True,
         Start (1, 2) (plugin ''mig'' 1 True) True,
         Stop (1, 0), Stop (1, 1), Stop (1, 2), NvmlShutdown True]"
proof -
  let ?env = "host (\<lambda>k. if k = 0
                     then [plugin ''zero'' 0 True, plugin ''gpu'' 2 True,
                           plugin ''mig'' 1 False, plugin ''late'' 1 True]
                     else [plugin ''zero'' 0 True, plugin ''gpu'' 2 True, plugin ''mig'' 1 True])
               (\<lambda>k. True)"
  let ?events = "[WatcherError, RestartTimeout, RestartTimeout, Sig SIGTERM]"
  have run: "start ?env ?events
     = ([NvmlInit True, Start (0, 1) (plugin ''gpu'' 2 True) True,
         Start (0, 2) (plugin ''mig'' 1 False) False, ArmTimer 30,
         Stop (0, 0), Stop (0, 1), Stop (0, 2), Stop (0, 3), NvmlShutdown True,
         NvmlInit True, Start (1, 1) (plugin ''gpu'' 2 True) True,
         Start (1, 2) (plugin ''mig'' 1 True) True,
         Stop (1, 0), Stop (1, 1), Stop (1, 2), NvmlShutdown True],
        Exit None)"
    by code_simp
  from supervisor_restart_cycle have "no_overlap [] (fst (start ?env ?events))" by blast
  with run show ?thesis by simp
qed

end
